theory Spec2Isabelle
  imports Complex_Main "HOL-Library.Word"
begin

section \<open>MI48 thermal camera stream (stream\_spi\_rpi5.py)\<close>

text \<open>
  A shallow embedding of the script: the command line, the frame serialiser
  \<open>write_frame\<close>, the min-max normalisation of the main loop, the loop itself with
  its three ways out, the signal handler and the \<open>finally\<close> block.  The sensor
  driver, OpenCV and the senxor helpers are external; their functions are fields of the
  record \<open>ext\<close> and their effects on the devices are fields of the record \<open>world\<close>.
\<close>

subsection \<open>Python exceptions\<close>

datatype pyerror =
    AttributeError string
  | ValueError
  | DriverError
  | SystemExit int

subsection \<open>Floating-point samples\<close>

text \<open>
  A floating-point sample is a finite value (kept as the rational it denotes), an
  infinity or a NaN.  The sign of zero is not kept: \<open>-0.0\<close> is \<open>Fin 0\<close>.
\<close>

datatype fval = Fin rat | PInf | NInf | NaN


text \<open>Round to nearest, ties to even: the rounding of every IEEE 754 operation below.\<close>

definition round_half_even :: "rat \<Rightarrow> int" where
  "round_half_even x =
     (let f = \<lfloor>x\<rfloor>; d = x - of_int f
      in if d < 1/2 then f else if 1/2 < d then f + 1 else if even f then f else f + 1)"

text \<open>
  binary32 has a 24-bit significand and unit-in-the-last-place \<open>2 powi e\<close> with
  \<open>-149 \<le> e \<le> 104\<close>.  \<open>binade a\<close> is the least \<open>k\<close> with
  \<open>a < 2 powi (k - 125)\<close>, so that \<open>a\<close> is rounded on the grid \<open>2 powi (k - 149)\<close>;
  \<open>k = 0\<close> covers the subnormal numbers and the first normal binade, \<open>k = 254\<close> is
  overflow.
\<close>

definition binade :: "rat \<Rightarrow> nat" where
  "binade a = length (takeWhile (\<lambda>k. 2 powi (int k - 125) \<le> a) [0..<254])"

definition round32_mag :: "rat \<Rightarrow> rat option" where
  "round32_mag a =
     (let k = binade a in
      if k = 254 then None
      else let e = int k - 149;
               r = of_int (round_half_even (a * 2 powi (- e))) * 2 powi e
           in if 2 ^ 128 \<le> r then None else Some r)"

definition round32 :: "rat \<Rightarrow> fval" where
  "round32 q =
     (if 0 \<le> q then (case round32_mag q of None \<Rightarrow> PInf | Some r \<Rightarrow> Fin r)
      else (case round32_mag (- q) of None \<Rightarrow> NInf | Some r \<Rightarrow> Fin (- r)))"

fun to_float32 :: "fval \<Rightarrow> fval" where
  "to_float32 (Fin q) = round32 q"
| "to_float32 v = v"

fun fsign :: "fval \<Rightarrow> int" where
  "fsign (Fin q) = (if q < 0 then - 1 else if q = 0 then 0 else 1)"
| "fsign PInf = 1"
| "fsign NInf = - 1"
| "fsign NaN = 0"

fun fsub :: "fval \<Rightarrow> fval \<Rightarrow> fval" where
  "fsub NaN y = NaN"
| "fsub x NaN = NaN"
| "fsub (Fin a) (Fin b) = round32 (a - b)"
| "fsub PInf PInf = NaN"
| "fsub NInf NInf = NaN"
| "fsub PInf y = PInf"
| "fsub NInf y = NInf"
| "fsub x PInf = NInf"
| "fsub x NInf = PInf"

fun fmul :: "fval \<Rightarrow> fval \<Rightarrow> fval" where
  "fmul NaN y = NaN"
| "fmul x NaN = NaN"
| "fmul (Fin a) (Fin b) = round32 (a * b)"
| "fmul x y =
     (if fsign x * fsign y = 0 then NaN else if 0 < fsign x * fsign y then PInf else NInf)"

text \<open>Division; a zero divisor counts as \<open>+0.0\<close>.\<close>

fun fdiv :: "fval \<Rightarrow> fval \<Rightarrow> fval" where
  "fdiv NaN y = NaN"
| "fdiv x NaN = NaN"
| "fdiv (Fin a) (Fin b) =
     (if b = 0 then (if a = 0 then NaN else if 0 < a then PInf else NInf)
      else round32 (a / b))"
| "fdiv (Fin a) y = Fin 0"
| "fdiv x (Fin b) = (if (0 \<le> b) = (x = PInf) then PInf else NInf)"
| "fdiv x y = NaN"

text \<open>Comparisons: every comparison with a NaN is false.\<close>

fun flt :: "fval \<Rightarrow> fval \<Rightarrow> bool" where
  "flt NaN y = False"
| "flt x NaN = False"
| "flt (Fin a) (Fin b) = (a < b)"
| "flt x NInf = False"
| "flt PInf y = False"
| "flt x y = True"

definition fgt :: "fval \<Rightarrow> fval \<Rightarrow> bool" where
  "fgt x y = flt y x"

fun feq :: "fval \<Rightarrow> fval \<Rightarrow> bool" where
  "feq NaN y = False"
| "feq x NaN = False"
| "feq x y = (x = y)"

text \<open>numpy's \<open>min\<close> and \<open>max\<close> reductions: a NaN anywhere gives NaN.\<close>

definition fmin2 :: "fval \<Rightarrow> fval \<Rightarrow> fval" where
  "fmin2 x y = (if x = NaN \<or> y = NaN then NaN else if flt y x then y else x)"

definition fmax2 :: "fval \<Rightarrow> fval \<Rightarrow> fval" where
  "fmax2 x y = (if x = NaN \<or> y = NaN then NaN else if flt x y then y else x)"

subsection \<open>Arrays\<close>

text \<open>
  An array is its shape and its elements in row-major (C) order; \<open>ravel(order='C')\<close>
  is \<open>elems\<close> and \<open>size\<close> is the number of elements.  The driver's frames are
  unsigned 16-bit or floating point, the only distinction \<open>write_frame\<close> makes.
\<close>

datatype 'a nd = Nd (shape: "nat list") (elems: "'a list")

datatype ndarray = U16 "16 word nd" | Flt "fval nd"

datatype dtype = Uint16 | Floating

fun dtype_of :: "ndarray \<Rightarrow> dtype" where
  "dtype_of (U16 a) = Uint16"
| "dtype_of (Flt a) = Floating"

fun shape_of :: "ndarray \<Rightarrow> nat list" where
  "shape_of (U16 a) = shape a"
| "shape_of (Flt a) = shape a"

fun size_of :: "ndarray \<Rightarrow> nat" where
  "size_of (U16 a) = length (elems a)"
| "size_of (Flt a) = length (elems a)"

definition map_nd :: "('a \<Rightarrow> 'b) \<Rightarrow> 'a nd \<Rightarrow> 'b nd" where
  "map_nd f a = Nd (shape a) (map f (elems a))"

type_synonym image = "8 word nd"

subsection \<open>Number formatting\<close>

definition digit_char :: "nat \<Rightarrow> char" where
  "digit_char d = ''0123456789'' ! d"

fun decimal :: "nat \<Rightarrow> string" where
  "decimal n = (if n < 10 then [digit_char n] else decimal (n div 10) @ [digit_char (n mod 10)])"

declare decimal.simps [simp del]

text \<open>\<open>'{:n}'\<close> on a uint16 scalar, in Python's startup locale (no grouping).\<close>

definition format_n :: "16 word \<Rightarrow> string" where
  "format_n v = decimal (unat v)"

text \<open>
  \<open>'{:.2f}'\<close>: the exact value rounded to hundredths, ties to even; the sign is kept
  when the digits round to zero; non-finite values have no digits.
\<close>

fun format_2f :: "fval \<Rightarrow> string" where
  "format_2f (Fin q) =
     (let c = nat (round_half_even (\<bar>q\<bar> * 100))
      in (if q < 0 then ''-'' else '''') @ decimal (c div 100) @ ''.''
           @ [digit_char (c mod 100 div 10), digit_char (c mod 10)])"
| "format_2f PInf = ''inf''"
| "format_2f NInf = ''-inf''"
| "format_2f NaN = ''nan''"

subsection \<open>The recording sink\<close>

text \<open>
  A text file opened for writing: what has reached the file, what is still in the
  buffer, and whether the file is closed.
\<close>

record pyfile =
  disk :: string
  pending :: string
  closed :: bool

definition open_w :: "pyfile" where
  "open_w = \<lparr>disk = [], pending = [], closed = False\<rparr>"

definition fwrite :: "pyfile \<Rightarrow> string \<Rightarrow> pyerror + pyfile" where
  "fwrite f s = (if closed f then Inl ValueError else Inr (f\<lparr>pending := pending f @ s\<rparr>))"

definition fflush :: "pyfile \<Rightarrow> pyerror + pyfile" where
  "fflush f =
     (if closed f then Inl ValueError else Inr (f\<lparr>disk := disk f @ pending f, pending := []\<rparr>))"

text \<open>\<open>close\<close> flushes; closing a closed file does nothing.\<close>

definition fclose :: "pyfile \<Rightarrow> pyfile" where
  "fclose f =
     (if closed f then f else f\<lparr>disk := disk f @ pending f, pending := [], closed := True\<rparr>)"

subsection \<open>write\_frame\<close>

definition frame_text :: "ndarray \<Rightarrow> string" where
  "frame_text arr =
     (case arr of
        U16 a \<Rightarrow> concat (map (\<lambda>v. format_n v @ '' '') (elems a)) @ [CHR 0x0A]
      | Flt a \<Rightarrow> concat (map (\<lambda>v. format_2f v @ '' '') (elems a)) @ [CHR 0x0A])"

definition write_frame :: "pyfile \<Rightarrow> ndarray \<Rightarrow> pyerror + pyfile" where
  "write_frame outfile arr =
     (case fwrite outfile (frame_text arr) of
        Inl e \<Rightarrow> Inl e
      | Inr f \<Rightarrow> fflush f)"

subsection \<open>External collaborators\<close>

text \<open>
  The functions of the senxor package, of OpenCV and of the platform that the script
  calls and that are not part of it, and what the outside does while the script shuts
  down.  \<open>cast_out_of_range\<close> is what the platform's float-to-uint8 conversion
  returns for a NaN, an infinity or a value outside \<open>(-1, 256)\<close>, where numpy leaves
  the result to the C compiler.  \<open>py_float\<close> is Python's \<open>float\<close> on a string,
  \<open>None\<close> when it raises.
\<close>

type_synonym header = "nat list"

text \<open>
  The driver's \<open>stop\<close> can raise like its other calls: \<open>stop_raises x k\<close> tells
  whether the call made after \<open>k\<close> earlier ones does.  SIGINT or SIGTERM can also
  arrive while the \<open>finally\<close> block runs: \<open>late_signal\<close> is the statement boundary
  of the block where that happens, if it does.  The calls on the file and on OpenCV
  are taken to return, in the block as in the loop.
\<close>

datatype block_point = BeforeStop | AfterStop | AfterClose | AfterDestroy

record ext =
  data_to_frame :: "ndarray \<Rightarrow> nat \<times> nat \<Rightarrow> ndarray"
  cv_filter :: "image \<Rightarrow> image"
  applyColorMap :: "image \<Rightarrow> image"
  cv_resize :: "image \<Rightarrow> nat \<times> nat \<Rightarrow> image"
  format_header :: "header \<Rightarrow> string"
  format_framestats :: "ndarray \<Rightarrow> string"
  cast_out_of_range :: "fval \<Rightarrow> 8 word"
  py_float :: "string \<Rightarrow> fval option"
  fpa_shape :: "nat \<times> nat"
  camera_id_hex :: string
  fw_major :: int
  strftime :: string
  stop_raises :: "nat \<Rightarrow> bool"
  late_signal :: "block_point option"

subsection \<open>Normalisation for display (main loop, lines 207 to 213)\<close>

text \<open>The samples of an array by value, and \<open>astype(np.float32)\<close>.\<close>

definition values_of :: "ndarray \<Rightarrow> fval nd" where
  "values_of img =
     (case img of
        U16 a \<Rightarrow> map_nd (\<lambda>w. Fin (of_nat (unat w))) a
      | Flt a \<Rightarrow> a)"

definition astype_float32 :: "ndarray \<Rightarrow> fval nd" where
  "astype_float32 img = map_nd to_float32 (values_of img)"

text \<open>\<open>min()\<close> and \<open>max()\<close> of an array; an empty array raises.\<close>

definition amin :: "fval list \<Rightarrow> pyerror + fval" where
  "amin vs = (case vs of [] \<Rightarrow> Inl ValueError | v # r \<Rightarrow> Inr (fold fmin2 r v))"

definition amax :: "fval list \<Rightarrow> pyerror + fval" where
  "amax vs = (case vs of [] \<Rightarrow> Inl ValueError | v # r \<Rightarrow> Inr (fold fmax2 r v))"

text \<open>\<open>astype(np.uint8)\<close> of a float32: truncation towards zero where C defines it.\<close>

definition astype_uint8 :: "ext \<Rightarrow> fval \<Rightarrow> 8 word" where
  "astype_uint8 x z =
     (case z of
        Fin q \<Rightarrow> if - 1 < q \<and> q < 256 then word_of_int (if 0 \<le> q then \<lfloor>q\<rfloor> else \<lceil>q\<rceil>)
                 else cast_out_of_range x z
      | _ \<Rightarrow> cast_out_of_range x z)"

definition normalize :: "ext \<Rightarrow> ndarray \<Rightarrow> pyerror + image" where
  "normalize x img =
     (let img_float = astype_float32 img in
      case amin (elems img_float) of
        Inl e \<Rightarrow> Inl e
      | Inr img_min \<Rightarrow>
          (case amax (elems img_float) of
             Inl e \<Rightarrow> Inl e
           | Inr img_max \<Rightarrow>
               if fgt img_max img_min
               then Inr (map_nd (\<lambda>v. astype_uint8 x
                      (fdiv (fmul (fsub v img_min) (Fin 255)) (fsub img_max img_min))) img_float)
               else Inr (map_nd (\<lambda>v. 0) img_float)))"

subsection \<open>Control flow\<close>

text \<open>
  How a statement ends: it falls through to the next one (\<open>Continue\<close>), leaves the loop
  by \<open>break\<close>, or raises.
\<close>

datatype flow = Continue | Break | Raise pyerror

subsection \<open>The devices\<close>

text \<open>
  What the script's calls leave behind: whether the sensor streams, the frame rate and
  the \<open>stop\<close> calls it was given (poll timeout when passed, stop timeout), the
  recording sink \<open>fd_data\<close> and the names passed to \<open>open\<close>, the window and every
  image shown in it, and the messages handed to \<open>logger.debug\<close>.
\<close>

datatype pyval = VBool bool | VInt int | VFloat fval

record world =
  streaming :: bool
  fps :: "pyval option"
  filters :: "(bool \<times> bool \<times> bool) option"
  stop_calls :: "(rat option \<times> rat) list"
  fd_data :: "pyfile option"
  opened :: "string list"
  window :: "image option"
  shown :: "image list"
  debug_log :: "string list"

definition boot :: world where
  "boot = \<lparr>streaming = False, fps = None, filters = None, stop_calls = [], fd_data = None,
            opened = [], window = None, shown = [], debug_log = []\<rparr>"

text \<open>
  \<open>mi48.stop\<close>: the call is made with its timeouts; when it returns the sensor no longer
  streams, when it raises the sensor is left as it was.
\<close>

definition mi48_stop :: "ext \<Rightarrow> rat option \<Rightarrow> rat \<Rightarrow> world \<Rightarrow> flow \<times> world" where
  "mi48_stop x poll_timeout stop_timeout w =
     (let w1 = w\<lparr>stop_calls := stop_calls w @ [(poll_timeout, stop_timeout)]\<rparr>
      in if stop_raises x (length (stop_calls w)) then (Raise DriverError, w1)
         else (Continue, w1\<lparr>streaming := False\<rparr>))"

definition destroyAllWindows :: "world \<Rightarrow> world" where
  "destroyAllWindows w = w\<lparr>window := None\<rparr>"

definition display_thermal_image :: "ext \<Rightarrow> image \<Rightarrow> world \<Rightarrow> world" where
  "display_thermal_image x img w =
     (let img_colored = applyColorMap x img;
          img_resized = cv_resize x img_colored (640, 496)
      in w\<lparr>window := Some img_resized, shown := shown w @ [img_resized]\<rparr>)"

subsection \<open>The signal handler\<close>

text \<open>
  \<open>signal_handler\<close>: stop the sensor, close the windows, raise \<open>SystemExit(0)\<close>; a
  \<open>stop\<close> that raises ends the handler there.
\<close>

definition signal_handler :: "ext \<Rightarrow> world \<Rightarrow> flow \<times> world" where
  "signal_handler x w =
     (case mi48_stop x (Some (1/4)) (6/5) w of
        (Continue, w1) \<Rightarrow> (Raise (SystemExit 0), destroyAllWindows w1)
      | r \<Rightarrow> r)"

subsection \<open>One iteration of the main loop\<close>

text \<open>
  What the outside does during one iteration: \<open>Read data header key\<close> is a wait and
  a \<open>read\<close> that return, with the key \<open>waitKey\<close> reports should the iteration get
  there; \<open>Fault\<close> is a wait or a read that raises; \<open>Interrupt p data header\<close> is
  SIGINT or SIGTERM delivered at point \<open>p\<close> of the iteration.
\<close>

datatype point = AtWait | AfterRead | AfterRecord | AfterDisplay

datatype event =
    Read "ndarray option" "header option" int
  | Fault
  | Interrupt point "ndarray option" "header option"

definition record_step :: "world \<Rightarrow> ndarray \<Rightarrow> flow \<times> world" where
  "record_step w data =
     (case fd_data w of
        None \<Rightarrow> (Continue, w)
      | Some f \<Rightarrow>
          (case write_frame f data of
             Inl e \<Rightarrow> (Raise e, w)
           | Inr f' \<Rightarrow> (Continue, w\<lparr>fd_data := Some f'\<rparr>)))"

definition log_step :: "ext \<Rightarrow> world \<Rightarrow> ndarray \<Rightarrow> header option \<Rightarrow> world" where
  "log_step x w data hdr =
     (case hdr of
        None \<Rightarrow> w
      | Some h \<Rightarrow>
          w\<lparr>debug_log := debug_log w @ [format_header x h @ ''  '' @ format_framestats x data]\<rparr>)"

definition display_step :: "ext \<Rightarrow> world \<Rightarrow> ndarray \<Rightarrow> header option \<Rightarrow> flow \<times> world" where
  "display_step x w data hdr =
     (let img = data_to_frame x data (fpa_shape x);
          w1 = log_step x w data hdr
      in case normalize x img of
           Inl e \<Rightarrow> (Raise e, w1)
         | Inr img8u \<Rightarrow> (Continue, display_thermal_image x (cv_filter x img8u) w1))"

definition process_frame :: "ext \<Rightarrow> world \<Rightarrow> ndarray \<Rightarrow> header option \<Rightarrow> flow \<times> world" where
  "process_frame x w data hdr =
     (case record_step w data of
        (Continue, w1) \<Rightarrow> display_step x w1 data hdr
      | r \<Rightarrow> r)"

definition iteration :: "ext \<Rightarrow> world \<Rightarrow> event \<Rightarrow> flow \<times> world" where
  "iteration x w ev =
     (case ev of
        Fault \<Rightarrow> (Raise DriverError, w)
      | Read None hdr key \<Rightarrow> (Continue, w)
      | Read (Some data) hdr key \<Rightarrow>
          (case process_frame x w data hdr of
             (Continue, w2) \<Rightarrow> if key = 113 then (Break, w2) else (Continue, w2)
           | r \<Rightarrow> r)
      | Interrupt AfterRecord (Some data) hdr \<Rightarrow>
          (case record_step w data of
             (Continue, w1) \<Rightarrow> signal_handler x w1
           | r \<Rightarrow> r)
      | Interrupt AfterDisplay (Some data) hdr \<Rightarrow>
          (case process_frame x w data hdr of
             (Continue, w2) \<Rightarrow> signal_handler x w2
           | r \<Rightarrow> r)
      | Interrupt p d hdr \<Rightarrow> signal_handler x w)"

subsection \<open>The loop, the finally block, the program\<close>

text \<open>
  The loop over the events of its first iterations; \<open>Continue\<close> at the end of the
  list is a loop that is still running.
\<close>

fun run_loop :: "ext \<Rightarrow> world \<Rightarrow> event list \<Rightarrow> flow \<times> world" where
  "run_loop x w [] = (Continue, w)"
| "run_loop x w (ev # evs) =
     (case iteration x w ev of
        (Continue, w') \<Rightarrow> run_loop x w' evs
      | r \<Rightarrow> r)"

text \<open>
  The \<open>finally\<close> block (lines 227 to 235): \<open>mi48.stop\<close>, then \<open>close\<close> of the sink
  if there is one, then \<open>destroyAllWindows\<close>.  The block ends early when \<open>stop\<close>
  raises and when a signal arrives, whose handler raises; \<open>Continue\<close> is a block that
  ran to its end.
\<close>

definition close_sink :: "world \<Rightarrow> world" where
  "close_sink w = (case fd_data w of None \<Rightarrow> w | Some f \<Rightarrow> w\<lparr>fd_data := Some (fclose f)\<rparr>)"

definition cleanup :: "ext \<Rightarrow> world \<Rightarrow> flow \<times> world" where
  "cleanup x w =
     (if late_signal x = Some BeforeStop then signal_handler x w
      else case mi48_stop x None (1/2) w of
        (Continue, w1) \<Rightarrow>
          if late_signal x = Some AfterStop then signal_handler x w1
          else let w2 = close_sink w1 in
            if late_signal x = Some AfterClose then signal_handler x w2
            else let w3 = destroyAllWindows w2 in
              if late_signal x = Some AfterDestroy then signal_handler x w3
              else (Continue, w3)
      | r \<Rightarrow> r)"

text \<open>
  \<open>try: while True: ... finally: ...\<close>: every way out of the loop runs the block, and
  an exception raised inside the block replaces the way the loop was left.
\<close>

definition try_loop :: "ext \<Rightarrow> world \<Rightarrow> event list \<Rightarrow> flow \<times> world" where
  "try_loop x w evs =
     (case run_loop x w evs of
        (Continue, w') \<Rightarrow> (Continue, w')
      | (r, w') \<Rightarrow>
          (case cleanup x w' of
             (Continue, w'') \<Rightarrow> (r, w'')
           | r' \<Rightarrow> r'))"

subsection \<open>The command line and the start-up\<close>

text \<open>
  argparse names the attribute of an option after its first long option string, and
  after its first option string when none is long; \<open>-\<close> becomes \<open>_\<close>.
\<close>

definition is_long :: "string \<Rightarrow> bool" where
  "is_long s = (1 < length s \<and> s ! 1 = CHR ''-'')"

definition dest :: "string list \<Rightarrow> string" where
  "dest option_strings =
     (let s = (case filter is_long option_strings of l # _ \<Rightarrow> l | [] \<Rightarrow> hd option_strings)
      in map (\<lambda>c. if c = CHR ''-'' then CHR ''_'' else c) (dropWhile (\<lambda>c. c = CHR ''-'') s))"

type_synonym namespace = "(string \<times> pyval) list"

definition setattr :: "namespace \<Rightarrow> string \<Rightarrow> pyval \<Rightarrow> namespace" where
  "setattr ns name v = (name, v) # filter (\<lambda>p. fst p \<noteq> name) ns"

definition getattr :: "namespace \<Rightarrow> string \<Rightarrow> pyerror + pyval" where
  "getattr ns name = (case map_of ns name of None \<Rightarrow> Inl (AttributeError name) | Some v \<Rightarrow> Inr v)"

definition DEFAULT_FPS :: int where
  "DEFAULT_FPS = 7"

definition record_opts :: "string list" where
  "record_opts = [''-r'', ''--record'']"

definition framerate_opts :: "string list" where
  "framerate_opts = [''-fps'', ''--framerate'']"

definition help_opts :: "string list" where
  "help_opts = [''-h'', ''--help'']"

text \<open>
  \<open>parse_args\<close> of argparse (CPython 3.11) for this parser: the help action that
  \<open>ArgumentParser\<close> adds, the \<open>store_true\<close> action of \<open>--record\<close> and the
  \<open>store\<close> action of \<open>--framerate\<close> with \<open>type=float\<close>, which takes one
  argument.  Help exits with 0, \<open>parser.error\<close> with 2.  The characters of the
  command line are ASCII.
\<close>

datatype action_kind = HelpAction | StoreTrue | StoreFloat

type_synonym action = "string list \<times> action_kind"

definition parser_actions :: "action list" where
  "parser_actions =
     [(help_opts, HelpAction), (record_opts, StoreTrue), (framerate_opts, StoreFloat)]"

definition option_string_actions :: "(string \<times> action) list" where
  "option_string_actions = concat (map (\<lambda>a. map (\<lambda>s. (s, a)) (fst a)) parser_actions)"

text \<open>The number of arguments an action takes (\<open>nargs\<close>).\<close>

definition nargs :: "action \<Rightarrow> nat" where
  "nargs a = (case snd a of StoreFloat \<Rightarrow> 1 | _ \<Rightarrow> 0)"

definition startswith :: "string \<Rightarrow> string \<Rightarrow> bool" where
  "startswith s p = (take (length p) s = p)"

text \<open>\<open>s.partition('=')\<close>: before the first \<open>=\<close>, whether there is one, after it.\<close>

definition partition_eq :: "string \<Rightarrow> string \<times> bool \<times> string" where
  "partition_eq s =
     (takeWhile (\<lambda>c. c \<noteq> CHR ''='') s, CHR ''='' \<in> set s,
      drop 1 (dropWhile (\<lambda>c. c \<noteq> CHR ''='') s))"

definition is_digit :: "char \<Rightarrow> bool" where
  "is_digit c = (c \<in> set ''0123456789'')"

definition is_integer_text :: "string \<Rightarrow> bool" where
  "is_integer_text t = (t \<noteq> [] \<and> list_all is_digit t)"

text \<open>
  The pattern \<open>^-\d+$|^-\d*\.\d+$\<close> of arguments that look like negative numbers;
  \<open>$\<close> also matches before a final newline.
\<close>

definition negative_number :: "string \<Rightarrow> bool" where
  "negative_number s =
     (let t = (if s \<noteq> [] \<and> last s = CHR 0x0A then butlast s else s) in
      case t of
        [] \<Rightarrow> False
      | c # b \<Rightarrow>
          c = CHR ''-''
          \<and> (is_integer_text b
             \<or> (CHR ''.'' \<in> set b \<and> list_all is_digit (takeWhile (\<lambda>c. c \<noteq> CHR ''.'') b)
                \<and> is_integer_text (drop 1 (dropWhile (\<lambda>c. c \<noteq> CHR ''.'') b)))))"

text \<open>
  An option found in an argument: its action (none for an option the parser does not
  have), its option string, whether an \<open>=\<close> separates the explicit argument, and the
  explicit argument written in the same string, if any.
\<close>

type_synonym option_tuple = "action option \<times> string \<times> bool \<times> string option"

text \<open>
  \<open>_get_option_tuples\<close>: a long option may be abbreviated to a prefix and carry
  \<open>=value\<close>; a single-dash argument is a one-letter option with the rest as its explicit
  argument, or a prefix of a single-dash option.
\<close>

definition get_option_tuples :: "string \<Rightarrow> option_tuple list" where
  "get_option_tuples option_string =
     (if option_string ! 1 = CHR ''-'' then
        (case partition_eq option_string of
           (option_prefix, sep, explicit_arg) \<Rightarrow>
             map (\<lambda>(s, a). (Some a, s, sep, if sep then Some explicit_arg else None))
                 (filter (\<lambda>(s, a). startswith s option_prefix) option_string_actions))
      else
        concat (map (\<lambda>(s, a).
                  if s = take 2 option_string then [(Some a, s, False, Some (drop 2 option_string))]
                  else if startswith s option_string then [(Some a, s, False, None)]
                  else [])
                option_string_actions))"

text \<open>\<open>_parse_optional\<close>: \<open>None\<close> is a positional argument; two matches are an error.\<close>

definition parse_optional :: "string \<Rightarrow> pyerror + option_tuple option" where
  "parse_optional arg_string =
     (if arg_string = [] then Inr None
      else if hd arg_string \<noteq> CHR ''-'' then Inr None
      else case map_of option_string_actions arg_string of
        Some a \<Rightarrow> Inr (Some (Some a, arg_string, False, None))
      | None \<Rightarrow>
          if length arg_string = 1 then Inr None
          else case partition_eq arg_string of
            (option_string, sep, explicit_arg) \<Rightarrow>
              (case (if sep then map_of option_string_actions option_string else None) of
                 Some a \<Rightarrow> Inr (Some (Some a, option_string, True, Some explicit_arg))
               | None \<Rightarrow>
                   (case get_option_tuples arg_string of
                      t # u # ts \<Rightarrow> Inl (SystemExit 2)
                    | [t] \<Rightarrow> Inr (Some t)
                    | [] \<Rightarrow>
                        if negative_number arg_string then Inr None
                        else if CHR '' '' \<in> set arg_string then Inr None
                        else Inr (Some (None, arg_string, False, None)))))"

text \<open>
  The pattern of the argument strings: \<open>Arg\<close> for an argument (\<open>A\<close>), \<open>Opt\<close> for
  an option (\<open>O\<close>), \<open>DashDash\<close> for \<open>--\<close>, after which everything is an argument.
\<close>

datatype arg_class = Arg | Opt option_tuple | DashDash

fun arg_strings_pattern :: "string list \<Rightarrow> pyerror + (string \<times> arg_class) list" where
  "arg_strings_pattern [] = Inr []"
| "arg_strings_pattern (arg_string # rest) =
     (if arg_string = ''--'' then Inr ((arg_string, DashDash) # map (\<lambda>s. (s, Arg)) rest)
      else case parse_optional arg_string of
        Inl e \<Rightarrow> Inl e
      | Inr t \<Rightarrow>
          (case arg_strings_pattern rest of
             Inl e \<Rightarrow> Inl e
           | Inr cs \<Rightarrow> Inr ((arg_string, case t of None \<Rightarrow> Arg | Some tup \<Rightarrow> Opt tup) # cs)))"

text \<open>
  \<open>consume_optional\<close>.  Its result is the actions to take with their argument strings,
  whether a string was left unrecognised, and how many of the following strings were
  used up.  Without an explicit argument, an action that takes one uses the next
  string, which must be an argument.
\<close>

type_synonym action_tuple = "action \<times> string list"

definition match_argument ::
  "action \<Rightarrow> (string \<times> arg_class) list \<Rightarrow> pyerror + action_tuple list \<times> bool \<times> nat" where
  "match_argument a following =
     (if nargs a = 0 then Inr ([(a, [])], False, 0)
      else case following of
        (s, Arg) # _ \<Rightarrow> Inr ([(a, [s])], False, 1)
      | _ \<Rightarrow> Inl (SystemExit 2))"

text \<open>
  With an explicit argument: after a one-letter option that takes no argument the
  explicit argument is read as further one-letter options (\<open>-rh\<close> is \<open>-r -h\<close>);
  an action that takes one argument takes the explicit argument.
\<close>

fun consume_explicit ::
  "action \<Rightarrow> string \<Rightarrow> bool \<Rightarrow> string \<Rightarrow> (string \<times> arg_class) list
     \<Rightarrow> pyerror + action_tuple list \<times> bool \<times> nat" where
  "consume_explicit a option_string sep [] following =
     (if nargs a = 1 then Inr ([(a, [[]])], False, 0) else Inl (SystemExit 2))"
| "consume_explicit a option_string sep (c # explicit_arg) following =
     (if nargs a = 0 \<and> option_string ! 1 \<noteq> CHR ''-'' then
        (if sep \<or> c = CHR ''-'' then Inl (SystemExit 2)
         else case map_of option_string_actions [hd option_string, c] of
           None \<Rightarrow> Inr ([(a, [])], True, 0)
         | Some a' \<Rightarrow>
             (case (case explicit_arg of
                      [] \<Rightarrow> match_argument a' following
                    | d # explicit_arg' \<Rightarrow>
                        if d = CHR ''=''
                        then consume_explicit a' [hd option_string, c] True explicit_arg' following
                        else consume_explicit a' [hd option_string, c] False explicit_arg following) of
                Inl e \<Rightarrow> Inl e
              | Inr (ts, extra, n) \<Rightarrow> Inr ((a, []) # ts, extra, n)))
      else if nargs a = 1 then Inr ([(a, [c # explicit_arg])], False, 0)
      else Inl (SystemExit 2))"

definition consume_optional ::
  "option_tuple \<Rightarrow> (string \<times> arg_class) list \<Rightarrow> pyerror + action_tuple list \<times> bool \<times> nat" where
  "consume_optional t following =
     (case t of
        (None, option_string, sep, explicit_arg) \<Rightarrow> Inr ([], True, 0)
      | (Some a, option_string, sep, None) \<Rightarrow> match_argument a following
      | (Some a, option_string, sep, Some explicit_arg) \<Rightarrow>
          consume_explicit a option_string sep explicit_arg following)"

text \<open>
  \<open>take_action\<close>: help prints and exits, \<open>store_true\<close> sets its attribute,
  \<open>store\<close> sets its attribute to \<open>float\<close> of its argument, an error when that raises.
\<close>

definition take_action :: "ext \<Rightarrow> namespace \<Rightarrow> action_tuple \<Rightarrow> pyerror + namespace" where
  "take_action x ns t =
     (case t of (a, argument_strings) \<Rightarrow>
        (case snd a of
           HelpAction \<Rightarrow> Inl (SystemExit 0)
         | StoreTrue \<Rightarrow> Inr (setattr ns (dest (fst a)) (VBool True))
         | StoreFloat \<Rightarrow>
             (case py_float x (concat argument_strings) of
                None \<Rightarrow> Inl (SystemExit 2)
              | Some f \<Rightarrow> Inr (setattr ns (dest (fst a)) (VFloat f)))))"

fun take_actions :: "ext \<Rightarrow> namespace \<Rightarrow> action_tuple list \<Rightarrow> pyerror + namespace" where
  "take_actions x ns [] = Inr ns"
| "take_actions x ns (t # ts) =
     (case take_action x ns t of
        Inl e \<Rightarrow> Inl e
      | Inr ns' \<Rightarrow> take_actions x ns' ts)"

text \<open>
  \<open>_parse_known_args\<close>: the strings from left to right.  The parser has no positional
  argument, so every string that is not an option or the argument of one is left
  over, and \<open>parse_args\<close> ends with an error when anything was (\<open>extras\<close>).
\<close>

function parse_known ::
  "ext \<Rightarrow> namespace \<Rightarrow> bool \<Rightarrow> (string \<times> arg_class) list \<Rightarrow> pyerror + namespace" where
  "parse_known x ns extras [] = (if extras then Inl (SystemExit 2) else Inr ns)"
| "parse_known x ns extras ((s, Arg) # rest) = parse_known x ns True rest"
| "parse_known x ns extras ((s, DashDash) # rest) = parse_known x ns True rest"
| "parse_known x ns extras ((s, Opt t) # rest) =
     (case consume_optional t rest of
        Inl e \<Rightarrow> Inl e
      | Inr (ts, extra, n) \<Rightarrow>
          (case take_actions x ns ts of
             Inl e \<Rightarrow> Inl e
           | Inr ns' \<Rightarrow> parse_known x ns' (extras \<or> extra) (drop n rest)))"
  by pat_completeness auto

termination parse_known
  by (relation "measure (\<lambda>(x, ns, extras, cs). length cs)") auto

definition parse_args :: "ext \<Rightarrow> string list \<Rightarrow> pyerror + namespace" where
  "parse_args x argv =
     (case arg_strings_pattern argv of
        Inl e \<Rightarrow> Inl e
      | Inr cs \<Rightarrow>
          parse_known x [(dest record_opts, VBool False), (dest framerate_opts, VInt DEFAULT_FPS)]
            False cs)"

definition get_filename :: "ext \<Rightarrow> string \<Rightarrow> string" where
  "get_filename x tag = tag @ ''--'' @ strftime x @ ''.dat''"

text \<open>Lines 166 to 171: the recording sink is opened when \<open>args.record\<close> is set.\<close>

definition setup_recording :: "ext \<Rightarrow> bool \<Rightarrow> world \<Rightarrow> world" where
  "setup_recording x rec w =
     (let w0 = w\<lparr>fd_data := None\<rparr> in
      if rec then w0\<lparr>fd_data := Some open_w, opened := opened w0 @ [get_filename x (camera_id_hex x)]\<rparr>
      else w0)"

definition truthy :: "pyval \<Rightarrow> bool" where
  "truthy v = (case v of VBool b \<Rightarrow> b | VInt i \<Rightarrow> i \<noteq> 0 | VFloat f \<Rightarrow> f \<noteq> Fin 0)"

text \<open>
  Lines 102 to 176, from the parsed command line to \<open>mi48.start\<close>; the bus and pin
  set-up between them has no part in what follows.
\<close>

definition startup :: "ext \<Rightarrow> string list \<Rightarrow> pyerror + world" where
  "startup x argv =
     (case parse_args x argv of
        Inl e \<Rightarrow> Inl e
      | Inr args \<Rightarrow>
          (case getattr args ''fps'' of
             Inl e \<Rightarrow> Inl e
           | Inr v \<Rightarrow>
               let w1 = boot\<lparr>fps := Some v\<rparr>;
                   w2 = (if 2 \<le> fw_major x then w1\<lparr>filters := Some (True, True, False)\<rparr> else w1)
               in (case getattr args ''record'' of
                     Inl e \<Rightarrow> Inl e
                   | Inr r \<Rightarrow> Inr ((setup_recording x (truthy r) w2)\<lparr>streaming := True\<rparr>))))"

definition main :: "ext \<Rightarrow> string list \<Rightarrow> event list \<Rightarrow> flow \<times> world" where
  "main x argv evs =
     (case startup x argv of
        Inl e \<Rightarrow> (Raise e, boot)
      | Inr w \<Rightarrow> try_loop x w evs)"

subsection \<open>Predicates used in the statements\<close>

definition args_ok :: "namespace \<Rightarrow> bool" where
  "args_ok ns =
     (map_of ns ''fps'' = None \<and> (\<exists>v. map_of ns ''framerate'' = Some v)
      \<and> (\<exists>b. map_of ns ''record'' = Some (VBool b)))"

text \<open>Options, pattern entries and actions that come from the parser's own table.\<close>

definition known_tuple :: "option_tuple \<Rightarrow> bool" where
  "known_tuple t = (case fst t of None \<Rightarrow> True | Some a \<Rightarrow> a \<in> set parser_actions)"

definition known_class :: "string \<times> arg_class \<Rightarrow> bool" where
  "known_class p = (case snd p of Opt t \<Rightarrow> known_tuple t | _ \<Rightarrow> True)"

definition known_actions :: "action_tuple list \<Rightarrow> bool" where
  "known_actions ts = list_all (\<lambda>t. fst t \<in> set parser_actions) ts"













text \<open>
  The binary32 neighbour of a magnitude before the overflow test, and the rationals
  that are whole multiples of the smallest subnormal number.
\<close>

definition grid :: "rat \<Rightarrow> rat" where
  "grid a =
     of_int (round_half_even (a * 2 powi (149 - int (binade a)))) * 2 powi (int (binade a) - 149)"

definition on_grid :: "rat \<Rightarrow> bool" where
  "on_grid q = (\<exists>n :: int. q = of_int n * 2 powi (- 149))"

text \<open>The binary32 neighbour of a signed value that does not overflow.\<close>

definition rnd :: "rat \<Rightarrow> rat" where
  "rnd q = (if 0 \<le> q then grid q else - grid (- q))"

text \<open>A finite sample of magnitude at most \<open>2 ^ 100\<close>.\<close>

fun bounded_sample :: "fval \<Rightarrow> bool" where
  "bounded_sample (Fin q) = (\<bar>q\<bar> \<le> 2 ^ 100)"
| "bounded_sample v = False"

text \<open>The float32 expression of line 211 for one sample.\<close>

definition scaled :: "fval \<Rightarrow> fval \<Rightarrow> fval \<Rightarrow> fval" where
  "scaled img_min img_max v = fdiv (fmul (fsub v img_min) (Fin 255)) (fsub img_max img_min)"

text \<open>A float32 sample as the code's comparison sees it: finite, on the grid, bounded.\<close>

fun sample32 :: "fval \<Rightarrow> bool" where
  "sample32 (Fin q) = (on_grid q \<and> \<bar>q\<bar> \<le> 2 ^ 100)"
| "sample32 v = False"

text \<open>
  Stand-ins for the external functions, to run the loop on concrete frames: a frame is
  reshaped to the rows and columns of \<open>fpa_shape\<close> and the image functions return
  their argument, every \<open>stop\<close> returns and no signal arrives while the
  \<open>finally\<close> block runs.  \<open>flat_quad\<close> is a frame of four equal samples and
  \<open>recording_world\<close> the devices as lines 166 to 176 leave them when
  \<open>args.record\<close> is set.
\<close>

definition reshape :: "ndarray \<Rightarrow> nat \<times> nat \<Rightarrow> ndarray" where
  "reshape d s =
     (case d of
        U16 a \<Rightarrow> U16 (Nd [snd s, fst s] (elems a))
      | Flt a \<Rightarrow> Flt (Nd [snd s, fst s] (elems a)))"

definition plain_ext :: ext where
  "plain_ext =
     \<lparr>data_to_frame = reshape, cv_filter = (\<lambda>i. i), applyColorMap = (\<lambda>i. i),
      cv_resize = (\<lambda>i s. i), format_header = (\<lambda>h. ''header''),
      format_framestats = (\<lambda>d. ''stats''), cast_out_of_range = (\<lambda>v. 0),
      py_float = (\<lambda>s. None), fpa_shape = (2, 2), camera_id_hex = ''c0de'', fw_major = 2,
      strftime = ''20240101-000000'', stop_raises = (\<lambda>k. False), late_signal = None\<rparr>"

definition flat_quad :: ndarray where
  "flat_quad = U16 (Nd [4] [7, 7, 7, 7])"

definition recording_world :: world where
  "recording_world =
     boot\<lparr>streaming := True, fd_data := Some open_w, opened := [''c0de--20240101-000000.dat'']\<rparr>"




subsection \<open>The text of a frame\<close>





















subsection \<open>Rounding to an integer\<close>

lemma rhe_cases:
  "round_half_even x = \<lfloor>x\<rfloor> \<or> round_half_even x = \<lfloor>x\<rfloor> + 1"
  by (simp add: round_half_even_def Let_def)

lemma rhe_floor_le: "\<lfloor>x\<rfloor> \<le> round_half_even x"
  using rhe_cases [of x] by auto

lemma rhe_le_ceil: "round_half_even x \<le> \<lfloor>x\<rfloor> + 1"
  using rhe_cases [of x] by auto

lemma rhe_int: "round_half_even (of_int n) = n"
  by (simp add: round_half_even_def)

lemma rhe_err: "\<bar>of_int (round_half_even x) - x\<bar> \<le> 1/2"
proof -
  have f: "of_int \<lfloor>x\<rfloor> \<le> x" "x < of_int \<lfloor>x\<rfloor> + 1" by linarith+
  show ?thesis
    using f by (auto simp: round_half_even_def Let_def abs_le_iff)
qed

lemma rhe_mono: "x \<le> y \<Longrightarrow> round_half_even x \<le> round_half_even y"
proof -
  assume xy: "x \<le> y"
  then have fl: "\<lfloor>x\<rfloor> \<le> \<lfloor>y\<rfloor>" by (rule floor_mono)
  show ?thesis
  proof (cases "\<lfloor>x\<rfloor> = \<lfloor>y\<rfloor>")
    case True
    with xy have "x - of_int \<lfloor>x\<rfloor> \<le> y - of_int \<lfloor>y\<rfloor>" by simp
    with True show ?thesis by (auto simp: round_half_even_def Let_def)
  next
    case False
    with fl have "\<lfloor>x\<rfloor> + 1 \<le> \<lfloor>y\<rfloor>" by simp
    with rhe_le_ceil [of x] rhe_floor_le [of y] show ?thesis by linarith
  qed
qed

subsection \<open>The binade of a magnitude\<close>

lemma binade_take:
  "takeWhile (\<lambda>k. 2 powi (int k - 125) \<le> a) [0..<254] = [0..<binade a]"
proof -
  let ?P = "\<lambda>k. 2 powi (int k - 125) \<le> a"
  have "takeWhile ?P [0..<254] = take (binade a) [0..<254]"
    unfolding binade_def by (rule takeWhile_eq_take)
  moreover have "binade a \<le> 254"
    unfolding binade_def using length_takeWhile_le [of ?P "[0..<254]"] by simp
  ultimately show ?thesis by (simp add: take_upt)
qed

lemma binade_le: "binade a \<le> 254"
  unfolding binade_def
  using length_takeWhile_le [of "\<lambda>k. 2 powi (int k - 125) \<le> a" "[0..<254]"] by simp

lemma binade_below: "j < binade a \<Longrightarrow> 2 powi (int j - 125) \<le> a"
proof -
  assume "j < binade a"
  then have "j \<in> set (takeWhile (\<lambda>k. 2 powi (int k - 125) \<le> a) [0..<254])"
    by (simp add: binade_take)
  then show ?thesis by (rule set_takeWhileD [THEN conjunct2])
qed

lemma binade_above: "binade a < 254 \<Longrightarrow> a < 2 powi (int (binade a) - 125)"
proof -
  assume k: "binade a < 254"
  let ?P = "\<lambda>k. 2 powi (int k - 125) \<le> a"
  have "length (takeWhile ?P [0..<254]) < length [0..<254]"
    using k by (simp add: binade_def)
  then have "\<not> ?P ([0..<254] ! length (takeWhile ?P [0..<254]))"
    by (rule nth_length_takeWhile)
  then show ?thesis using k by (simp add: binade_def not_le)
qed

lemma binade_upper: "a < 2 powi (int j - 125) \<Longrightarrow> binade a \<le> j"
proof (rule ccontr)
  assume a: "a < 2 powi (int j - 125)" and "\<not> binade a \<le> j"
  then have "j < binade a" by simp
  from binade_below [OF this] a show False by simp
qed

lemma binade_mono: "a \<le> b \<Longrightarrow> binade a \<le> binade b"
proof (cases "binade b < 254")
  case True
  assume "a \<le> b"
  with binade_above [OF True] have "a < 2 powi (int (binade b) - 125)" by simp
  then show ?thesis by (rule binade_upper)
next
  case False
  with binade_le [of b] binade_le [of a] show ?thesis by simp
qed

subsection \<open>Rounding on the binary32 grid\<close>

lemma p2_pos: "0 < (2::rat) powi i"
  by (simp add: zero_less_power_int)

lemma p2_add: "(2::rat) powi (i + j) = 2 powi i * 2 powi j"
  by (simp add: power_int_add)

lemma p2_mono: "i \<le> j \<Longrightarrow> (2::rat) powi i \<le> 2 powi j"
  by (rule power_int_increasing) simp_all

lemma p2_cancel: "(2::rat) powi i * 2 powi (- i) = 1"
  using p2_add [of i "- i"] by simp

lemma round32_mag_grid:
  "round32_mag a = (if binade a = 254 \<or> 2 ^ 128 \<le> grid a then None else Some (grid a))"
  by (simp add: round32_mag_def grid_def Let_def)

lemma scaled_back: "(a::rat) * 2 powi (149 - int k) * 2 powi (int k - 149) = a"
proof -
  have "(2::rat) powi (149 - int k) * 2 powi (int k - 149) = 1"
    using p2_cancel [of "149 - int k"] by simp
  then show ?thesis by (simp add: mult.assoc)
qed

lemma grid_err: "\<bar>grid a - a\<bar> \<le> 2 powi (int (binade a) - 150)"
proof -
  let ?k = "binade a"
  let ?s = "a * 2 powi (149 - int ?k)"
  let ?u = "(2::rat) powi (int ?k - 149)"
  have "grid a - a = (of_int (round_half_even ?s) - ?s) * ?u"
    using scaled_back [of a ?k] by (simp add: grid_def algebra_simps)
  then have "\<bar>grid a - a\<bar> = \<bar>of_int (round_half_even ?s) - ?s\<bar> * ?u"
    using p2_pos [of "int ?k - 149"] by (simp add: abs_mult)
  also have "\<dots> \<le> 1/2 * ?u"
    using rhe_err [of ?s] p2_pos [of "int ?k - 149"] by (intro mult_right_mono) simp_all
  also have "1/2 * ?u = 2 powi (int ?k - 150)"
    using p2_add [of "- 1" "int ?k - 149"] by (simp add: power_int_minus)
  finally show ?thesis .
qed

lemma grid_exact: "a * 2 powi (149 - int (binade a)) = of_int n \<Longrightarrow> grid a = a"
  using scaled_back [of a "binade a"] by (simp add: grid_def rhe_int)

lemma grid_zero: "grid 0 = 0"
  by (rule grid_exact [of 0 0]) simp

lemma grid_upper: "binade a < 254 \<Longrightarrow> grid a \<le> 2 powi (int (binade a) - 125)"
proof -
  assume k: "binade a < 254"
  let ?k = "binade a"
  have "a * 2 powi (149 - int ?k) \<le> 2 powi (int ?k - 125) * 2 powi (149 - int ?k)"
    using binade_above [OF k] p2_pos [of "149 - int ?k"] by (intro mult_right_mono) simp_all
  also have "\<dots> = 2 powi 24" using p2_add [of "int ?k - 125" "149 - int ?k"] by simp
  finally have "a * 2 powi (149 - int ?k) \<le> of_int (2 ^ 24)" by simp
  then have "round_half_even (a * 2 powi (149 - int ?k)) \<le> 2 ^ 24"
    using rhe_mono [of "a * 2 powi (149 - int ?k)" "of_int (2 ^ 24)"] by (simp only: rhe_int)
  then have "(of_int (round_half_even (a * 2 powi (149 - int ?k))) :: rat) \<le> of_int (2 ^ 24)"
    by (simp only: of_int_le_iff)
  then have "grid a \<le> of_int (2 ^ 24) * 2 powi (int ?k - 149)"
    unfolding grid_def using p2_pos [of "int ?k - 149"] by (intro mult_right_mono) simp_all
  also have "\<dots> = 2 powi (int ?k - 125)" using p2_add [of 24 "int ?k - 149"] by simp
  finally show ?thesis .
qed

lemma grid_lower: "0 < binade a \<Longrightarrow> 2 powi (int (binade a) - 126) \<le> grid a"
proof -
  assume k: "0 < binade a"
  let ?k = "binade a"
  have b: "2 powi (int (?k - 1) - 125) \<le> a" using k by (intro binade_below) simp
  have i: "int (?k - 1) - 125 = int ?k - 126" using k by simp
  have "(2::rat) powi 23 = 2 powi (int ?k - 126) * 2 powi (149 - int ?k)"
    using p2_add [of "int ?k - 126" "149 - int ?k"] by simp
  also have "\<dots> \<le> a * 2 powi (149 - int ?k)"
    using b p2_pos [of "149 - int ?k"] unfolding i by (intro mult_right_mono) simp_all
  finally have "of_int (2 ^ 23) \<le> a * 2 powi (149 - int ?k)" by simp
  then have "2 ^ 23 \<le> round_half_even (a * 2 powi (149 - int ?k))"
    using rhe_mono [of "of_int (2 ^ 23)" "a * 2 powi (149 - int ?k)"] by (simp only: rhe_int)
  then have "(of_int (2 ^ 23) :: rat) \<le> of_int (round_half_even (a * 2 powi (149 - int ?k)))"
    by (simp only: of_int_le_iff)
  then have "of_int (2 ^ 23) * 2 powi (int ?k - 149) \<le> grid a"
    unfolding grid_def using p2_pos [of "int ?k - 149"] by (intro mult_right_mono) simp_all
  moreover have "of_int (2 ^ 23) * 2 powi (int ?k - 149) = (2::rat) powi (int ?k - 126)"
    using p2_add [of 23 "int ?k - 149"] by simp
  ultimately show ?thesis by simp
qed

lemma grid_mono:
  assumes "a \<le> b" and "binade b < 254"
  shows "grid a \<le> grid b"
proof (cases "binade a = binade b")
  case True
  have "a * 2 powi (149 - int (binade b)) \<le> b * 2 powi (149 - int (binade b))"
    using assms(1) p2_pos [of "149 - int (binade b)"] by (intro mult_right_mono) simp_all
  then have "round_half_even (a * 2 powi (149 - int (binade b)))
      \<le> round_half_even (b * 2 powi (149 - int (binade b)))" by (rule rhe_mono)
  then have "(of_int (round_half_even (a * 2 powi (149 - int (binade b)))) :: rat)
      \<le> of_int (round_half_even (b * 2 powi (149 - int (binade b))))" by (simp only: of_int_le_iff)
  then show ?thesis
    unfolding grid_def True using p2_pos [of "int (binade b) - 149"]
    by (intro mult_right_mono) simp_all
next
  case False
  with binade_mono [OF assms(1)] have lt: "binade a < binade b" by simp
  then have ka: "binade a < 254" using assms(2) by simp
  have "grid a \<le> 2 powi (int (binade a) - 125)" using ka by (rule grid_upper)
  also have "\<dots> \<le> 2 powi (int (binade b) - 126)" using lt by (intro p2_mono) simp
  also have "\<dots> \<le> grid b" using lt by (intro grid_lower) simp
  finally show ?thesis .
qed

lemma grid_repr:
  assumes "0 \<le> m" and "m < 2 ^ 24" and "- 149 \<le> j" and "j \<le> 104"
  shows "grid (of_int m * 2 powi j) = of_int m * 2 powi j"
proof -
  let ?a = "(of_int m :: rat) * 2 powi j"
  have "?a < of_int (2 ^ 24) * 2 powi j"
    using assms(2) p2_pos [of j] by (intro mult_strict_right_mono) (simp_all only: of_int_less_iff)
  also have "\<dots> = 2 powi (int (nat (j + 149)) - 125)"
    using assms(3) p2_add [of 24 j] by (simp add: add.commute)
  finally have "binade ?a \<le> nat (j + 149)" by (rule binade_upper)
  then have "0 \<le> j + 149 - int (binade ?a)" using assms(3) by simp
  then obtain d :: nat where d: "j + 149 - int (binade ?a) = int d"
    using nonneg_int_cases by blast
  have "?a * 2 powi (149 - int (binade ?a)) = of_int m * 2 powi (j + (149 - int (binade ?a)))"
    by (simp add: p2_add mult.assoc)
  also have "j + (149 - int (binade ?a)) = int d" using d by simp
  also have "(of_int m :: rat) * 2 powi (int d) = of_int (m * 2 ^ d)" by simp
  finally show ?thesis by (rule grid_exact)
qed

lemma grid_nonneg: "0 \<le> a \<Longrightarrow> binade a < 254 \<Longrightarrow> 0 \<le> grid a"
  using grid_mono [of 0 a] by (simp add: grid_zero)

subsection \<open>Rounding signed values\<close>

lemma binade_small: "a < 2 ^ 128 \<Longrightarrow> binade a < 254"
proof -
  assume "a < 2 ^ 128"
  then have "a < 2 powi (int 253 - 125)" by simp
  then have "binade a \<le> 253" by (rule binade_upper)
  then show ?thesis by simp
qed

lemma grid_pow2: "- 126 \<le> j \<Longrightarrow> j \<le> 127 \<Longrightarrow> grid (2 powi j) = 2 powi j"
proof -
  assume j: "- 126 \<le> j" "j \<le> 127"
  have "grid (of_int (2 ^ 23) * 2 powi (j - 23)) = of_int (2 ^ 23) * 2 powi (j - 23)"
    using j by (intro grid_repr) simp_all
  moreover have "(of_int (2 ^ 23) :: rat) * 2 powi (j - 23) = 2 powi j"
    using p2_add [of 23 "j - 23"] by simp
  ultimately show ?thesis by simp
qed

lemma grid_bounded:
  assumes "0 \<le> a" and "a \<le> 2 powi j" and "- 126 \<le> j" and "j \<le> 127"
  shows "binade a < 254 \<and> grid a \<le> 2 powi j \<and> round32_mag a = Some (grid a)"
proof -
  have p: "(2::rat) powi j \<le> 2 powi 127" using assms(4) by (rule p2_mono)
  then have "a < 2 ^ 128" using assms(2) by simp
  then have k: "binade a < 254" by (rule binade_small)
  have "(2::rat) powi j < 2 ^ 128" using p by simp
  then have "binade ((2::rat) powi j) < 254" by (rule binade_small)
  with assms(2) have "grid a \<le> grid (2 powi j)" by (intro grid_mono)
  then have g: "grid a \<le> 2 powi j" using grid_pow2 [OF assms(3,4)] by simp
  with p have "grid a < 2 ^ 128" by simp
  with k g show ?thesis by (simp add: round32_mag_grid)
qed

lemma round32_bounded:
  assumes "\<bar>q\<bar> \<le> 2 powi j" and "- 126 \<le> j" and "j \<le> 127"
  shows "round32 q = Fin (rnd q) \<and> \<bar>rnd q\<bar> \<le> 2 powi j"
proof (cases "0 \<le> q")
  case True
  with assms(1) have "q \<le> 2 powi j" by simp
  from grid_bounded [OF True this assms(2,3)] grid_nonneg [OF True] True show ?thesis
    by (simp add: round32_def rnd_def)
next
  case False
  then have n: "0 \<le> - q" by simp
  from False assms(1) have "- q \<le> 2 powi j" by simp
  from grid_bounded [OF n this assms(2,3)] grid_nonneg [OF n] False show ?thesis
    by (simp add: round32_def rnd_def)
qed

lemma rnd_zero: "rnd 0 = 0"
  by (simp add: rnd_def grid_zero)

lemma rnd_mono:
  assumes "a \<le> b" and "\<bar>a\<bar> < 2 ^ 128" and "\<bar>b\<bar> < 2 ^ 128"
  shows "rnd a \<le> rnd b"
proof -
  have ka: "binade \<bar>a\<bar> < 254" using assms(2) by (rule binade_small)
  have kb: "binade \<bar>b\<bar> < 254" using assms(3) by (rule binade_small)
  show ?thesis
  proof (cases "0 \<le> a")
    case True
    with assms(1) have "0 \<le> b" by simp
    with True ka kb assms(1) show ?thesis by (simp add: rnd_def grid_mono)
  next
    case False
    show ?thesis
    proof (cases "0 \<le> b")
      case True
      have "0 \<le> grid (- a)" using False ka by (intro grid_nonneg) simp_all
      moreover have "0 \<le> grid b" using True kb by (intro grid_nonneg) simp_all
      ultimately show ?thesis using False True by (simp add: rnd_def)
    next
      case nb: False
      have "grid (- b) \<le> grid (- a)" using assms(1) ka False by (intro grid_mono) simp_all
      then show ?thesis using False nb by (simp add: rnd_def)
    qed
  qed
qed

lemma rnd_repr:
  assumes "\<bar>m\<bar> < 2 ^ 24" and "- 149 \<le> j" and "j \<le> 104"
  shows "rnd (of_int m * 2 powi j) = of_int m * 2 powi j"
proof (cases "0 \<le> m")
  case True
  then have "0 \<le> (of_int m :: rat) * 2 powi j" using p2_pos [of j] by simp
  moreover have "m < 2 ^ 24" using assms(1) True by simp
  ultimately show ?thesis using True assms(2,3) by (simp add: rnd_def grid_repr)
next
  case False
  then have "(of_int m :: rat) * 2 powi j < 0"
    using p2_pos [of j] by (simp add: mult_less_0_iff)
  moreover have "grid (of_int (- m) * 2 powi j) = of_int (- m) * 2 powi j"
    using False assms by (intro grid_repr) simp_all
  ultimately show ?thesis by (simp add: rnd_def)
qed

lemma rnd_int: "\<bar>m\<bar> < 2 ^ 24 \<Longrightarrow> rnd (of_int m) = of_int m"
  using rnd_repr [of m 0] by simp

lemma rnd_err: "\<bar>rnd q - q\<bar> \<le> 2 powi (int (binade \<bar>q\<bar>) - 150)"
proof (cases "0 \<le> q")
  case True
  then show ?thesis using grid_err [of q] by (simp add: rnd_def)
next
  case False
  have "\<bar>rnd q - q\<bar> = \<bar>grid (- q) - (- q)\<bar>" using False by (simp add: rnd_def)
  with grid_err [of "- q"] False show ?thesis by simp
qed

lemma grid_on_grid: "on_grid (grid a)"
proof -
  have "(2::rat) powi (int (binade a) - 149) = of_int (2 ^ binade a) * 2 powi (- 149)"
    using p2_add [of "int (binade a)" "- 149"] by simp
  then have "grid a = of_int (round_half_even (a * 2 powi (149 - int (binade a))) * 2 ^ binade a)
      * 2 powi (- 149)"
    by (simp add: grid_def)
  then show ?thesis unfolding on_grid_def by blast
qed

lemma rnd_on_grid: "on_grid (rnd q)"
proof (cases "0 \<le> q")
  case True
  then show ?thesis using grid_on_grid [of q] by (simp add: rnd_def)
next
  case False
  from grid_on_grid [of "- q"] obtain n :: int where "grid (- q) = of_int n * 2 powi (- 149)"
    unfolding on_grid_def by blast
  then have "rnd q = of_int (- n) * 2 powi (- 149)" using False by (simp add: rnd_def)
  then show ?thesis unfolding on_grid_def by blast
qed

lemma on_grid_diff: "on_grid a \<Longrightarrow> on_grid b \<Longrightarrow> on_grid (a - b)"
proof -
  assume "on_grid a" "on_grid b"
  then obtain m n :: int where "a = of_int m * 2 powi (- 149)" "b = of_int n * 2 powi (- 149)"
    unfolding on_grid_def by blast
  then have "a - b = of_int (m - n) * 2 powi (- 149)" by (simp add: algebra_simps)
  then show ?thesis unfolding on_grid_def by blast
qed

lemma on_grid_mult: "on_grid a \<Longrightarrow> on_grid (a * of_int c)"
proof -
  assume "on_grid a"
  then obtain m :: int where "a = of_int m * 2 powi (- 149)" unfolding on_grid_def by blast
  then have "a * of_int c = of_int (m * c) * 2 powi (- 149)" by simp
  then show ?thesis unfolding on_grid_def by blast
qed

lemma on_grid_pos: "on_grid a \<Longrightarrow> 0 < a \<Longrightarrow> 2 powi (- 149) \<le> a"
proof -
  assume "on_grid a" and pos: "0 < a"
  then obtain m :: int where a: "a = of_int m * 2 powi (- 149)" unfolding on_grid_def by blast
  with pos p2_pos [of "- 149"] have "0 < (of_int m :: rat)" by (simp add: zero_less_mult_iff)
  then have "1 \<le> m" by simp
  then have "(1::rat) \<le> of_int m" by (simp only: of_int_1_le_iff)
  then have "1 * (2::rat) powi (- 149) \<le> of_int m * 2 powi (- 149)"
    using p2_pos [of "- 149"] by (intro mult_right_mono) simp_all
  with a show ?thesis by simp
qed

text \<open>A value on the grid below the second binade is not moved.\<close>

lemma grid_small_exact:
  assumes "on_grid a" and "binade a = 0"
  shows "grid a = a"
proof -
  from assms(1) obtain m :: int where a: "a = of_int m * 2 powi (- 149)"
    unfolding on_grid_def by blast
  have k: "149 - int (binade a) = 149" using assms(2) by simp
  have c: "(2::rat) powi (- 149) * 2 powi 149 = 1"
    using p2_cancel [of "- 149"] by (simp only: minus_minus)
  have "a * 2 powi (149 - int (binade a)) = a * 2 powi 149" by (simp only: k)
  also have "\<dots> = of_int m * (2 powi (- 149) * 2 powi 149)"
    by (subst a) (simp only: mult.assoc)
  also have "\<dots> = of_int m" unfolding c by simp
  finally show ?thesis by (rule grid_exact)
qed

text \<open>The relative error of one rounding is at most \<open>2 powi (- 24)\<close>.\<close>

lemma grid_rel_err:
  assumes "on_grid a" and "0 \<le> a"
  shows "\<bar>grid a - a\<bar> \<le> a * 2 powi (- 24)"
proof (cases "binade a = 0")
  case True
  with grid_small_exact [OF assms(1)] assms(2) p2_pos [of "- 24"] show ?thesis by simp
next
  case False
  then have k: "0 < binade a" by simp
  have b: "2 powi (int (binade a - 1) - 125) \<le> a" using k by (intro binade_below) simp
  have i: "int (binade a - 1) - 125 = int (binade a) - 126" using k by simp
  have "\<bar>grid a - a\<bar> \<le> 2 powi (int (binade a) - 150)" by (rule grid_err)
  also have "\<dots> = 2 powi (int (binade a) - 126) * 2 powi (- 24)"
    using p2_add [of "int (binade a) - 126" "- 24"] by simp
  also have "\<dots> \<le> a * 2 powi (- 24)"
    using b p2_pos [of "- 24"] unfolding i by (intro mult_right_mono) simp_all
  finally show ?thesis .
qed

subsection \<open>The arithmetic of the normalisation\<close>

lemma norm_divisor:
  assumes "on_grid mn" and "on_grid mx" and "mn < mx"
    and "\<bar>mn\<bar> \<le> 2 ^ 100" and "\<bar>mx\<bar> \<le> 2 ^ 100"
  shows "rnd (mx - mn) = grid (mx - mn)" and "0 < grid (mx - mn)"
    and "grid (mx - mn) \<le> 2 ^ 101" and "on_grid (grid (mx - mn))"
    and "binade (mx - mn) < 254"
proof -
  let ?d = "mx - mn"
  have pos: "0 < ?d" using assms(3) by simp
  have le: "?d \<le> 2 powi 101" using assms(4,5) by (simp add: abs_le_iff)
  show "rnd ?d = grid ?d" using pos by (simp add: rnd_def)
  have gb: "binade ?d < 254 \<and> grid ?d \<le> 2 powi 101 \<and> round32_mag ?d = Some (grid ?d)"
    using pos le by (intro grid_bounded) simp_all
  then show "grid ?d \<le> 2 ^ 101" by simp
  show "binade ?d < 254" using gb by simp
  have "on_grid ?d" using assms(1,2) by (intro on_grid_diff)
  then have "2 powi (- 149) \<le> ?d" using pos by (rule on_grid_pos)
  then have "grid (2 powi (- 149)) \<le> grid ?d" using gb by (intro grid_mono) simp_all
  moreover have "grid (of_int 1 * 2 powi (- 149)) = of_int 1 * 2 powi (- 149)"
    by (intro grid_repr) simp_all
  ultimately have "2 powi (- 149) \<le> grid ?d" by simp
  with p2_pos [of "- 149"] show "0 < grid ?d" by linarith
  show "on_grid (grid ?d)" by (rule grid_on_grid)
qed

lemma norm_numerator:
  assumes "0 \<le> t" and "t \<le> d" and "binade d < 254" and "grid d \<le> 2 ^ 101"
  shows "0 \<le> grid t" and "grid t \<le> grid d"
    and "0 \<le> grid (grid t * 255)" and "grid (grid t * 255) \<le> grid (grid d * 255)"
    and "binade (grid d * 255) < 254" and "binade (grid t * 255) < 254"
    and "binade (grid t) < 254"
proof -
  have kt: "binade t \<le> binade d" using assms(2) by (rule binade_mono)
  then show bt: "binade (grid t) < 254"
  proof -
    have "grid t \<le> grid d" using assms(2,3) by (rule grid_mono)
    with assms(4) have "grid t < 2 ^ 128" by simp
    then show ?thesis by (rule binade_small)
  qed
  show t0: "0 \<le> grid t" using assms(1) kt assms(3) by (intro grid_nonneg) simp_all
  show td: "grid t \<le> grid d" using assms(2,3) by (rule grid_mono)
  have "grid d * 255 \<le> 2 ^ 101 * 255" using assms(4) by simp
  also have "\<dots> < (2::rat) ^ 128" by simp
  finally show kd: "binade (grid d * 255) < 254" by (rule binade_small)
  have m: "grid t * 255 \<le> grid d * 255" using td by simp
  with kd binade_mono [OF m] show k2: "binade (grid t * 255) < 254" by simp
  show "0 \<le> grid (grid t * 255)" using t0 k2 by (intro grid_nonneg) simp_all
  show "grid (grid t * 255) \<le> grid (grid d * 255)" using m kd by (rule grid_mono)
qed

lemma band:
  fixes g X e :: rat
  assumes "\<bar>g - X * 255\<bar> \<le> X * e" and "0 < X"
  shows "255 - e \<le> g / X" and "g / X \<le> 255 + e"
proof -
  from assms(1) have "(255 - e) * X \<le> g" and "g \<le> (255 + e) * X"
    by (simp_all add: abs_le_iff algebra_simps)
  with assms(2) show "255 - e \<le> g / X" and "g / X \<le> 255 + e"
    by (simp_all add: pos_le_divide_eq pos_divide_le_eq)
qed

lemma norm_ratio:
  assumes "on_grid X" and "0 < X" and "binade (X * 255) < 254"
  shows "255 - 2 powi (- 16) \<le> grid (X * 255) / X" and "grid (X * 255) / X \<le> 255 + 2 powi (- 16)"
proof -
  have og: "on_grid (X * of_int 255)" using assms(1) by (rule on_grid_mult)
  have nn: "0 \<le> X * 255" using assms(2) by simp
  have e: "\<bar>grid (X * 255) - X * 255\<bar> \<le> X * 255 * 2 powi (- 24)"
    using grid_rel_err [of "X * 255"] og nn by simp
  have c: "(255::rat) * 2 powi (- 24) \<le> 2 powi (- 16)" by (simp add: power_int_minus)
  have "X * 255 * 2 powi (- 24) = X * (255 * 2 powi (- 24))" by simp
  also have "\<dots> \<le> X * 2 powi (- 16)" using c assms(2) by (intro mult_left_mono) simp_all
  finally have b: "\<bar>grid (X * 255) - X * 255\<bar> \<le> X * 2 powi (- 16)" using e by linarith
  show "255 - 2 powi (- 16) \<le> grid (X * 255) / X"
    using b assms(2) by (rule band(1))
  show "grid (X * 255) / X \<le> 255 + 2 powi (- 16)"
    using b assms(2) by (rule band(2))
qed

lemma grid_near_255:
  "grid (255 - 2 powi (- 16)) = 255 - 2 powi (- 16)"
  "grid (255 + 2 powi (- 16)) = 255 + 2 powi (- 16)"
proof -
  have a: "(255::rat) - 2 powi (- 16) = of_int 16711679 * 2 powi (- 16)"
    by (simp add: power_int_minus)
  have b: "(255::rat) + 2 powi (- 16) = of_int 16711681 * 2 powi (- 16)"
    by (simp add: power_int_minus)
  show "grid (255 - 2 powi (- 16)) = 255 - 2 powi (- 16)"
    unfolding a by (intro grid_repr) simp_all
  show "grid (255 + 2 powi (- 16)) = 255 + 2 powi (- 16)"
    unfolding b by (intro grid_repr) simp_all
qed

subsection \<open>One pixel\<close>

lemma scaled_value:
  assumes "on_grid mn" and "on_grid mx" and "mn \<le> v" and "v \<le> mx" and "mn < mx"
    and "\<bar>mn\<bar> \<le> 2 ^ 100" and "\<bar>mx\<bar> \<le> 2 ^ 100"
  defines "z \<equiv> grid (grid (grid (v - mn) * 255) / grid (mx - mn))"
  shows "scaled (Fin mn) (Fin mx) (Fin v) = Fin z"
    and "0 \<le> z" and "z \<le> 255 + 2 powi (- 16)"
    and "v = mn \<longrightarrow> z = 0" and "v = mx \<longrightarrow> 255 - 2 powi (- 16) \<le> z"
proof -
  let ?d = "mx - mn"
  let ?X = "grid ?d"
  let ?t = "v - mn"
  let ?A = "grid ?t"
  let ?B = "grid (?A * 255)"
  let ?Y = "grid (?X * 255)"
  note D = norm_divisor [OF assms(1,2,5,6,7)]
  have t0: "0 \<le> ?t" and td: "?t \<le> ?d" using assms(3,4) by simp_all
  note N = norm_numerator [OF t0 td D(5) D(3)]
  note R = norm_ratio [OF D(4) D(2) N(5)]
  have q0: "0 \<le> ?B / ?X" using N(3) D(2) by simp
  have qY: "?B / ?X \<le> ?Y / ?X" using N(4) D(2) by (simp add: divide_right_mono)
  have qhi: "?B / ?X \<le> 255 + 2 powi (- 16)" using qY R(2) by linarith
  have k255: "binade ((255::rat) + 2 powi (- 16)) < 254"
    by (rule binade_small) (simp add: power_int_minus)
  have kq: "binade (?B / ?X) < 254" using binade_mono [OF qhi] k255 by simp
  show z0: "0 \<le> z" unfolding z_def using q0 kq by (rule grid_nonneg)
  have "z \<le> grid (255 + 2 powi (- 16))" unfolding z_def using qhi k255 by (rule grid_mono)
  then show zhi: "z \<le> 255 + 2 powi (- 16)" by (simp only: grid_near_255)
  show "v = mn \<longrightarrow> z = 0" by (simp add: z_def grid_zero)
  show "v = mx \<longrightarrow> 255 - 2 powi (- 16) \<le> z"
  proof
    assume v: "v = mx"
    have kY: "binade (?Y / ?X) < 254" using binade_mono [OF R(2)] k255 by simp
    have "grid (255 - 2 powi (- 16)) \<le> grid (?Y / ?X)" using R(1) kY by (rule grid_mono)
    then show "255 - 2 powi (- 16) \<le> z" unfolding z_def v by (simp only: grid_near_255)
  qed
  have s1: "fsub (Fin v) (Fin mn) = Fin ?A"
  proof -
    have "\<bar>?t\<bar> \<le> 2 powi 101" using t0 td assms(6,7) by (simp add: abs_le_iff)
    from round32_bounded [OF this] t0 show ?thesis by (simp add: rnd_def)
  qed
  have s2: "fmul (Fin ?A) (Fin 255) = Fin ?B"
  proof -
    have "?A * 255 \<le> 2 ^ 101 * 255" using N(2) D(3) by simp
    also have "\<dots> \<le> (2::rat) powi 109" by simp
    finally have "\<bar>?A * 255\<bar> \<le> 2 powi 109" using N(1) by simp
    from round32_bounded [OF this] N(1) show ?thesis by (simp add: rnd_def)
  qed
  have s3: "fsub (Fin mx) (Fin mn) = Fin ?X"
  proof -
    have "\<bar>?d\<bar> \<le> 2 powi 101" using assms(5,6,7) by (simp add: abs_le_iff)
    from round32_bounded [OF this] D(1) show ?thesis by simp
  qed
  have s4: "fdiv (Fin ?B) (Fin ?X) = Fin z"
  proof -
    have "255 + (2::rat) powi (- 16) \<le> 2 powi 9" by (simp add: power_int_minus)
    with qhi have "?B / ?X \<le> 2 powi 9" by (rule order_trans)
    with q0 have "\<bar>?B / ?X\<bar> \<le> 2 powi 9" by (simp only: abs_of_nonneg)
    from round32_bounded [OF this] q0 D(2) show ?thesis by (simp add: rnd_def z_def)
  qed
  show "scaled (Fin mn) (Fin mx) (Fin v) = Fin z"
    unfolding scaled_def s1 s2 s3 s4 ..
qed

lemma astype_uint8_floor:
  "0 \<le> z \<Longrightarrow> z < 256 \<Longrightarrow> astype_uint8 x (Fin z) = word_of_int \<lfloor>z\<rfloor>"
  by (simp add: astype_uint8_def)

lemma floor_254_255:
  fixes z :: rat
  assumes "255 - 2 powi (- 16) \<le> z" and "z \<le> 255 + 2 powi (- 16)"
  shows "\<lfloor>z\<rfloor> = 254 \<or> \<lfloor>z\<rfloor> = 255"
proof -
  have e: "(2::rat) powi (- 16) \<le> 1/2" by (simp add: power_int_minus)
  have "254 \<le> z" "z < 256" using assms e by linarith+
  then have "254 \<le> \<lfloor>z\<rfloor>" "\<lfloor>z\<rfloor> < 256" by (simp_all add: le_floor_iff floor_less_iff)
  then show ?thesis by linarith
qed

subsection \<open>Minimum and maximum of an array\<close>

lemma flt_irrefl: "\<not> flt v v"
  by (cases v) simp_all

lemma flt_trans: "flt a b \<Longrightarrow> flt b c \<Longrightarrow> flt a c"
  by (cases a; cases b; cases c) simp_all

lemma flt_total: "a \<noteq> NaN \<Longrightarrow> b \<noteq> NaN \<Longrightarrow> flt a b \<or> a = b \<or> flt b a"
  by (cases a; cases b) auto

lemma fmin2_same: "fmin2 c c = c"
  by (simp add: fmin2_def flt_irrefl)

lemma fmax2_same: "fmax2 c c = c"
  by (simp add: fmax2_def flt_irrefl)

lemma fold_fmin2_const: "\<forall>u \<in> set r. u = c \<Longrightarrow> fold fmin2 r c = c"
  by (induction r) (simp_all add: fmin2_same)

lemma fold_fmax2_const: "\<forall>u \<in> set r. u = c \<Longrightarrow> fold fmax2 r c = c"
  by (induction r) (simp_all add: fmax2_same)

lemma fold_fmin2_lower:
  "fold fmin2 r v \<noteq> NaN \<Longrightarrow> \<forall>u \<in> set (v # r). u \<noteq> NaN \<and> \<not> flt u (fold fmin2 r v)"
proof (induction r arbitrary: v)
  case Nil
  then show ?case by (simp add: flt_irrefl)
next
  case (Cons a r)
  let ?m = "fold fmin2 r (fmin2 a v)"
  from Cons.prems have m: "?m \<noteq> NaN" by simp
  from Cons.IH [OF m] have ih: "\<forall>u \<in> set (fmin2 a v # r). u \<noteq> NaN \<and> \<not> flt u ?m" .
  then have f: "fmin2 a v \<noteq> NaN" and fm: "\<not> flt (fmin2 a v) ?m" by simp_all
  from f have a: "a \<noteq> NaN" and v: "v \<noteq> NaN" by (auto simp: fmin2_def split: if_splits)
  have "\<not> flt a ?m \<and> \<not> flt v ?m"
  proof (cases "flt v a")
    case True
    with a v have e: "fmin2 a v = v" by (simp add: fmin2_def)
    with fm have "\<not> flt v ?m" by simp
    moreover have "\<not> flt a ?m" using True fm e flt_trans [of v a ?m] by auto
    ultimately show ?thesis by simp
  next
    case False
    with a v have e: "fmin2 a v = a" by (simp add: fmin2_def)
    with fm have na: "\<not> flt a ?m" by simp
    have "\<not> flt v ?m"
    proof
      assume vm: "flt v ?m"
      from flt_total [OF a m] na have "a = ?m \<or> flt ?m a" by auto
      with vm flt_trans [of v ?m a] False show False by auto
    qed
    with na show ?thesis by simp
  qed
  with ih a v show ?case by simp
qed

lemma fold_fmax2_upper:
  "fold fmax2 r v \<noteq> NaN \<Longrightarrow> \<forall>u \<in> set (v # r). u \<noteq> NaN \<and> \<not> flt (fold fmax2 r v) u"
proof (induction r arbitrary: v)
  case Nil
  then show ?case by (simp add: flt_irrefl)
next
  case (Cons a r)
  let ?m = "fold fmax2 r (fmax2 a v)"
  from Cons.prems have m: "?m \<noteq> NaN" by simp
  from Cons.IH [OF m] have ih: "\<forall>u \<in> set (fmax2 a v # r). u \<noteq> NaN \<and> \<not> flt ?m u" .
  then have f: "fmax2 a v \<noteq> NaN" and fm: "\<not> flt ?m (fmax2 a v)" by simp_all
  from f have a: "a \<noteq> NaN" and v: "v \<noteq> NaN" by (auto simp: fmax2_def split: if_splits)
  have "\<not> flt ?m a \<and> \<not> flt ?m v"
  proof (cases "flt a v")
    case True
    with a v have e: "fmax2 a v = v" by (simp add: fmax2_def)
    with fm have "\<not> flt ?m v" by simp
    moreover have "\<not> flt ?m a" using True fm e flt_trans [of ?m a v] by auto
    ultimately show ?thesis by simp
  next
    case False
    with a v have e: "fmax2 a v = a" by (simp add: fmax2_def)
    with fm have na: "\<not> flt ?m a" by simp
    have "\<not> flt ?m v"
    proof
      assume vm: "flt ?m v"
      from flt_total [OF m a] na have "a = ?m \<or> flt a ?m" by auto
      with vm flt_trans [of a ?m v] False show False by auto
    qed
    with na show ?thesis by simp
  qed
  with ih a v show ?case by simp
qed

lemma flat_all_equal:
  assumes "amin vs = Inr mn" and "amax vs = Inr mx" and "feq mx mn"
  shows "vs \<noteq> [] \<and> mn \<noteq> NaN \<and> (\<forall>u \<in> set vs. u = mn)"
proof -
  from assms(1) obtain v r where vs: "vs = v # r" and mn: "mn = fold fmin2 r v"
    by (auto simp: amin_def split: list.splits)
  from assms(2) vs have mx: "mx = fold fmax2 r v" by (simp add: amax_def)
  from assms(3) have n: "mn \<noteq> NaN" "mx \<noteq> NaN" and e: "mx = mn"
    by (cases mx; cases mn; simp)+
  from fold_fmin2_lower [of r v] n(1) mn have lo: "\<forall>u \<in> set vs. u \<noteq> NaN \<and> \<not> flt u mn"
    by (simp add: vs)
  from fold_fmax2_upper [of r v] n(2) mx e have hi: "\<forall>u \<in> set vs. \<not> flt mn u"
    by (simp add: vs)
  have "\<forall>u \<in> set vs. u = mn"
  proof
    fix u assume u: "u \<in> set vs"
    with lo hi have "u \<noteq> NaN" "\<not> flt u mn" "\<not> flt mn u" by auto
    with flt_total [of u mn] n(1) show "u = mn" by auto
  qed
  with n(1) vs show ?thesis by simp
qed

lemma shape_values_of: "shape (values_of img) = shape_of img"
  by (cases img) (simp_all add: values_of_def map_nd_def)

lemma length_values_of: "length (elems (values_of img)) = size_of img"
  by (cases img) (simp_all add: values_of_def map_nd_def)

lemma normalize_flat:
  assumes "amin (elems (values_of img)) = Inr mn" and "amax (elems (values_of img)) = Inr mx"
    and "feq mx mn"
  shows "normalize x img = Inr (Nd (shape_of img) (replicate (size_of img) 0))"
proof -
  let ?vs = "elems (values_of img)"
  let ?fs = "elems (astype_float32 img)"
  from flat_all_equal [OF assms] have ne: "?vs \<noteq> []" and all: "\<forall>u \<in> set ?vs. u = mn" by simp_all
  have fs: "?fs = map to_float32 ?vs" by (simp add: astype_float32_def map_nd_def)
  from ne obtain v r where vs: "?vs = v # r" by (cases ?vs) auto
  let ?c = "to_float32 mn"
  have c: "\<forall>u \<in> set (map to_float32 r). u = ?c" using all vs by simp
  have v: "to_float32 v = ?c" using all vs by simp
  have mn': "amin ?fs = Inr ?c"
    using fold_fmin2_const [OF c] by (simp add: fs vs amin_def v)
  have mx': "amax ?fs = Inr ?c"
    using fold_fmax2_const [OF c] by (simp add: fs vs amax_def v)
  have z: "map (\<lambda>v. 0 :: 8 word) (map to_float32 ?vs) = replicate (size_of img) 0"
    using length_values_of [of img] by (simp add: map_replicate_const)
  show ?thesis
    unfolding normalize_def Let_def mn' mx'
    using z by (simp add: fgt_def flt_irrefl map_nd_def astype_float32_def shape_values_of)
qed

subsection \<open>Frames of bounded samples\<close>

lemma to_float32_sample: "bounded_sample v \<Longrightarrow> sample32 (to_float32 v)"
proof (cases v)
  case (Fin q)
  assume "bounded_sample v"
  with Fin have "\<bar>q\<bar> \<le> 2 powi 100" by simp
  from round32_bounded [OF this] rnd_on_grid [of q] Fin show ?thesis by simp
qed simp_all

lemma samples_Fin:
  "\<forall>v \<in> set vs. sample32 v \<Longrightarrow>
   \<exists>qs. vs = map Fin qs \<and> (\<forall>q \<in> set qs. on_grid q \<and> \<bar>q\<bar> \<le> 2 ^ 100)"
proof (induction vs)
  case Nil
  show ?case by simp
next
  case (Cons v vs)
  then obtain qs where qs: "vs = map Fin qs" "\<forall>q \<in> set qs. on_grid q \<and> \<bar>q\<bar> \<le> 2 ^ 100"
    by auto
  from Cons.prems obtain q where q: "v = Fin q" "on_grid q" "\<bar>q\<bar> \<le> 2 ^ 100"
    by (cases v) auto
  from qs q have "v # vs = map Fin (q # qs) \<and> (\<forall>q \<in> set (q # qs). on_grid q \<and> \<bar>q\<bar> \<le> 2 ^ 100)"
    by simp
  then show ?case by (intro exI [of _ "q # qs"])
qed

lemma fold_fmin2_Fin: "fold fmin2 (map Fin qs) (Fin q) = Fin (fold min qs q)"
  by (induction qs arbitrary: q) (auto simp: fmin2_def min_def)

lemma fold_fmax2_Fin: "fold fmax2 (map Fin qs) (Fin q) = Fin (fold max qs q)"
  by (induction qs arbitrary: q) (auto simp: fmax2_def max_def)

lemma amin_Fin: "amin (map Fin qs) = Inr mn \<Longrightarrow> qs \<noteq> [] \<and> mn = Fin (Min (set qs))"
proof (cases qs)
  case Nil
  assume "amin (map Fin qs) = Inr mn"
  with Nil show ?thesis by (simp add: amin_def)
next
  case (Cons a r)
  assume "amin (map Fin qs) = Inr mn"
  with Cons have "mn = Fin (fold min r a)" by (simp add: amin_def fold_fmin2_Fin)
  with Cons Min.set_eq_fold [of a r] show ?thesis by simp
qed

lemma amax_Fin: "amax (map Fin qs) = Inr mx \<Longrightarrow> qs \<noteq> [] \<and> mx = Fin (Max (set qs))"
proof (cases qs)
  case Nil
  assume "amax (map Fin qs) = Inr mx"
  with Nil show ?thesis by (simp add: amax_def)
next
  case (Cons a r)
  assume "amax (map Fin qs) = Inr mx"
  with Cons have "mx = Fin (fold max r a)" by (simp add: amax_def fold_fmax2_Fin)
  with Cons Max.set_eq_fold [of a r] show ?thesis by simp
qed

lemma float32_samples:
  "\<forall>v \<in> set (elems (values_of img)). bounded_sample v \<Longrightarrow>
   \<forall>v \<in> set (elems (astype_float32 img)). sample32 v"
  by (simp add: astype_float32_def map_nd_def to_float32_sample)

lemma normalize_unfold:
  assumes "amin (elems (astype_float32 img)) = Inr mn"
    and "amax (elems (astype_float32 img)) = Inr mx" and "fgt mx mn"
  shows "normalize x img =
     Inr (Nd (shape_of img)
       (map (\<lambda>v. astype_uint8 x (scaled mn mx v)) (elems (astype_float32 img))))"
proof -
  have "shape (astype_float32 img) = shape_of img"
    by (simp add: astype_float32_def map_nd_def shape_values_of)
  then show ?thesis
    unfolding normalize_def Let_def assms(1,2)
    using assms(3) by (simp add: map_nd_def scaled_def)
qed

subsection \<open>Evaluating a rounding\<close>

lemma binade_eq:
  assumes "0 < k" and "k < 254" and "2 powi (int k - 126) \<le> a" and "a < 2 powi (int k - 125)"
  shows "binade a = k"
proof -
  have le: "binade a \<le> k" using assms(4) by (rule binade_upper)
  have "\<not> binade a < k"
  proof
    assume lt: "binade a < k"
    then have "binade a < 254" using assms(2) by simp
    then have "a < 2 powi (int (binade a) - 125)" by (rule binade_above)
    also have "\<dots> \<le> 2 powi (int k - 126)" using lt by (intro p2_mono) simp
    finally show False using assms(3) by simp
  qed
  with le show ?thesis by simp
qed

lemma round32_eval:
  assumes "0 < k" and "k < 254" and "2 powi (int k - 126) \<le> a" and "a < 2 powi (int k - 125)"
    and "round_half_even (a * 2 powi (149 - int k)) = n"
    and "of_int n * 2 powi (int k - 149) = r" and "r < 2 ^ 128"
  shows "round32 a = Fin r" and "round32 (- a) = Fin (- r)"
proof -
  have k: "binade a = k" using assms(1-4) by (rule binade_eq)
  have pos: "0 < a" using assms(3) p2_pos [of "int k - 126"] by linarith
  have g: "grid a = r" using assms(5,6) by (simp add: grid_def k)
  have m: "round32_mag a = Some r" using assms(2,7) by (simp add: round32_mag_grid k g)
  show "round32 a = Fin r" using pos m by (simp add: round32_def)
  show "round32 (- a) = Fin (- r)" using pos m by (simp add: round32_def)
qed

lemma floor_rat_numeral: "\<lfloor>numeral a / numeral b :: rat\<rfloor> = numeral a div numeral b"
  using floor_divide_of_int_eq [of "numeral a" "numeral b", where ?'a = rat] by simp

lemma round32_zero: "round32 0 = Fin 0"
  using round32_bounded [of 0 0] by (simp add: rnd_zero)

lemma r32_low: "round32 (- (167/20)) = Fin (- (4377805/524288))"
  by (rule round32_eval(2) [where k = 129 and n = 8755610])
     (simp_all add: round_half_even_def Let_def power_int_minus floor_rat_numeral)

lemma r32_high: "round32 (1749/20) = Fin (5731123/65536)"
  by (rule round32_eval(1) [where k = 132 and n = 11462246])
     (simp_all add: round_half_even_def Let_def power_int_minus floor_rat_numeral)

lemma r32_span: "round32 (50226789/524288) = Fin (12556697/131072)"
  by (rule round32_eval(1) [where k = 132 and n = 12556697])
     (simp_all add: round_half_even_def Let_def power_int_minus floor_rat_numeral)

lemma r32_span_255: "round32 (3201957735/131072) = Fin (12507647/512)"
  by (rule round32_eval(1) [where k = 140 and n = 12507647])
     (simp_all add: round_half_even_def Let_def power_int_minus floor_rat_numeral)

lemma r32_quotient: "round32 (3201957632/12556697) = Fin (16711679/65536)"
  by (rule round32_eval(1) [where k = 133 and n = 16711679])
     (simp_all add: round_half_even_def Let_def power_int_minus floor_rat_numeral)

subsection \<open>Unsigned 16-bit frames\<close>

lemma on_grid_int: "on_grid (of_int m)"
proof -
  have "(of_int m :: rat) = of_int (m * 2 ^ 149) * 2 powi (- 149)"
    using p2_cancel [of 149] by (simp add: mult.assoc)
  then show ?thesis unfolding on_grid_def by blast
qed

lemma grid_int: "0 \<le> m \<Longrightarrow> m < 2 ^ 24 \<Longrightarrow> grid (of_int m) = of_int m"
  using grid_repr [of m 0] by simp

lemma floor_grid_quotient:
  fixes p X :: int
  assumes "0 \<le> p" and "0 < X" and "X < 65536" and "p \<le> 255 * X"
  shows "\<lfloor>grid (of_int p / of_int X)\<rfloor> = p div X"
proof -
  let ?q = "(of_int p :: rat) / of_int X"
  let ?k = "p div X"
  have k0: "0 \<le> ?k" using assms(1,2) by (simp add: pos_imp_zdiv_nonneg_iff)
  have k255: "?k \<le> 255"
  proof -
    have "p div X \<le> (255 * X) div X" using assms(2,4) by (intro zdiv_mono1) simp_all
    then show ?thesis using assms(2) by simp
  qed
  have Xr: "(0::rat) < of_int X" using assms(2) by simp
  have lo: "of_int ?k \<le> ?q"
    using of_int_floor_le [of ?q] by (simp only: floor_divide_of_int_eq)
  have m: "p mod X < X" using assms(2) by (rule pos_mod_bound)
  have "p = ?k * X + p mod X" by simp
  with m have "p < ?k * X + X" by linarith
  then have "p < (?k + 1) * X" by (simp add: algebra_simps)
  then have "p + 1 \<le> (?k + 1) * X" by simp
  then have "(of_int (p + 1) :: rat) \<le> of_int ((?k + 1) * X)" by (simp only: of_int_le_iff)
  then have "(of_int p :: rat) \<le> of_int (?k + 1) * of_int X - 1" by simp
  then have "?q \<le> (of_int (?k + 1) * of_int X - 1) / of_int X"
    using Xr by (simp add: divide_right_mono)
  also have "\<dots> = of_int (?k + 1) - 1 / of_int X" using Xr by (simp add: diff_divide_distrib)
  finally have q1: "?q \<le> of_int (?k + 1) - 1 / of_int X" .
  have "(of_int X :: rat) \<le> of_int 65536" using assms(3) by (simp only: of_int_le_iff; simp)
  then have "(of_int X :: rat) \<le> 2 ^ 16" by simp
  then have "1 / (2::rat) ^ 16 \<le> 1 / of_int X" using Xr by (intro divide_left_mono) simp_all
  then have e: "(2::rat) powi (- 16) \<le> 1 / of_int X" by (simp add: power_int_minus inverse_eq_divide)
  have hi: "?q \<le> of_int (?k + 1) - 2 powi (- 16)" using q1 e by linarith
  have rep: "(of_int (?k + 1) :: rat) - 2 powi (- 16) = of_int ((?k + 1) * 65536 - 1) * 2 powi (- 16)"
    by (simp add: power_int_minus algebra_simps)
  have ghi: "grid (of_int (?k + 1) - 2 powi (- 16)) = of_int (?k + 1) - 2 powi (- 16)"
    unfolding rep using k0 k255 by (intro grid_repr) simp_all
  have bhi: "binade ((of_int (?k + 1) :: rat) - 2 powi (- 16)) < 254"
  proof (rule binade_small)
    have "(of_int (?k + 1) :: rat) \<le> of_int 256" using k255 by (simp only: of_int_le_iff; simp)
    then show "(of_int (?k + 1) :: rat) - 2 powi (- 16) < 2 ^ 128"
      using p2_pos [of "- 16"] by simp
  qed
  have bq: "binade ?q < 254" using binade_mono [OF hi] bhi by simp
  have "grid (of_int ?k) \<le> grid ?q" using lo bq by (rule grid_mono)
  then have g1: "of_int ?k \<le> grid ?q" using k0 k255 by (simp add: grid_int)
  have "grid ?q \<le> grid (of_int (?k + 1) - 2 powi (- 16))" using hi bhi by (rule grid_mono)
  then have "grid ?q \<le> of_int (?k + 1) - 2 powi (- 16)" by (simp only: ghi)
  then have g2: "grid ?q < of_int ?k + 1" using p2_pos [of "- 16"] by simp
  from g1 g2 show ?thesis by (rule floor_unique)
qed

lemma scaled_uint16:
  fixes lo n hi :: nat
  assumes "lo \<le> n" and "n \<le> hi" and "lo < hi" and "hi < 65536"
  shows "\<exists>z. scaled (Fin (of_nat lo)) (Fin (of_nat hi)) (Fin (of_nat n)) = Fin z
            \<and> 0 \<le> z \<and> z < 256 \<and> \<lfloor>z\<rfloor> = int (((n - lo) * 255) div (hi - lo))"
proof -
  let ?mn = "of_nat lo :: rat" and ?mx = "of_nat hi :: rat" and ?v = "of_nat n :: rat"
  let ?z = "grid (grid (grid (?v - ?mn) * 255) / grid (?mx - ?mn))"
  have g: "on_grid ?mn" "on_grid ?mx"
    using on_grid_int [of "int lo"] on_grid_int [of "int hi"] by simp_all
  have o: "?mn \<le> ?v" "?v \<le> ?mx" "?mn < ?mx" using assms(1,2,3) by simp_all
  have "(of_nat hi :: rat) \<le> of_nat 65536" using assms(4) by (simp only: of_nat_le_iff; simp)
  then have bh: "\<bar>?mx\<bar> \<le> 2 ^ 100" by simp
  have "(of_nat lo :: rat) \<le> of_nat 65536" using assms(3,4) by (simp only: of_nat_le_iff; simp)
  then have bl: "\<bar>?mn\<bar> \<le> 2 ^ 100" by simp
  note S = scaled_value [OF g o bl bh]
  let ?t = "int (n - lo)" and ?X = "int (hi - lo)"
  have t: "?v - ?mn = of_int ?t" using assms(1) by (simp add: of_nat_diff)
  have X: "?mx - ?mn = of_int ?X" using assms(3) by (simp add: of_nat_diff)
  have tb: "0 \<le> ?t" "?t < 65536" "?t \<le> ?X" using assms by simp_all
  have Xb: "0 < ?X" "?X < 65536" using assms by simp_all
  have g1: "grid (?v - ?mn) = of_int ?t" unfolding t using tb by (intro grid_int) simp_all
  have g2: "grid (of_int ?t * 255) = of_int (?t * 255)"
    using grid_int [of "?t * 255"] tb by simp
  have g3: "grid (?mx - ?mn) = of_int ?X" unfolding X using Xb by (intro grid_int) simp_all
  have z: "?z = grid (of_int (?t * 255) / of_int ?X)" by (simp only: g1 g2 g3)
  have "\<lfloor>?z\<rfloor> = (?t * 255) div ?X"
    unfolding z using tb Xb by (intro floor_grid_quotient) simp_all
  also have "\<dots> = int (((n - lo) * 255) div (hi - lo))" by (simp add: zdiv_int)
  finally have fl: "\<lfloor>?z\<rfloor> = int (((n - lo) * 255) div (hi - lo))" .
  have e: "(2::rat) powi (- 16) \<le> 1/2" by (simp add: power_int_minus)
  have "?z < 256" using S(3) e by linarith
  with S(1,2) fl show ?thesis by blast
qed

lemma round32_nat: "n < 65536 \<Longrightarrow> round32 (of_nat n) = Fin (of_nat n)"
proof -
  assume u: "n < 65536"
  then have "(of_nat n :: rat) \<le> of_nat 65536" by (simp only: of_nat_le_iff; simp)
  moreover have "(0::rat) \<le> of_nat n" by (rule of_nat_0_le_iff)
  ultimately have "\<bar>of_nat n :: rat\<bar> \<le> 2 powi 100" by (simp only: abs_of_nonneg) simp
  from round32_bounded [OF this] have "round32 (of_nat n) = Fin (rnd (of_nat n))"
    by simp
  moreover have "rnd (of_int (int n)) = of_int (int n)"
    using u by (intro rnd_int) simp
  ultimately show ?thesis by simp
qed

lemma round32_uint16: "round32 (of_nat (unat (w :: 16 word))) = Fin (of_nat (unat w))"
proof -
  have "unat w < 65536" using unsigned_less [of w, where ?'a = nat] by simp
  then show ?thesis by (rule round32_nat)
qed

lemma round32_unsigned: "round32 (unsigned (w :: 16 word)) = Fin (unsigned w)"
  using round32_uint16 [of w] by simp

lemma float32_uint16:
  "elems (astype_float32 (U16 a)) = map (\<lambda>w. Fin (of_nat (unat w))) (elems a)"
  by (simp add: astype_float32_def values_of_def map_nd_def round32_unsigned)

subsection \<open>The normalised image\<close>

text \<open>
  Claim C1 (as amended).  For a frame of finite samples of magnitude at most
  \<open>2 ^ 100\<close> whose float32 maximum exceeds its float32 minimum, the normalised image
  has the frame's shape and each sample \<open>v\<close> becomes the float32 value of
  \<open>(v - min) * 255 / (max - min)\<close> converted to 8 bits.  That value is finite and in
  \<open>[0, 256)\<close>, so the output is its integer part and lies in \<open>[0, 255]\<close>; the
  minimum maps to 0; the maximum maps to 254 or 255, and to 255 when the frame is
  unsigned 16-bit.  The claim as stated, 255 for every frame, fails: the float frame
  \<open>[-8.35, 87.45]\<close> is mapped to \<open>[0, 254]\<close>, as the theorem after the next shows.
\<close>

theorem normalize_scales_into_range:
  assumes "\<forall>v \<in> set (elems (values_of img)). bounded_sample v"
    and "amin (elems (astype_float32 img)) = Inr mn"
    and "amax (elems (astype_float32 img)) = Inr mx"
    and "fgt mx mn"
  shows "normalize x img =
           Inr (Nd (shape_of img)
             (map (\<lambda>v. astype_uint8 x (scaled mn mx v)) (elems (astype_float32 img))))
       \<and> mn \<in> set (elems (astype_float32 img)) \<and> mx \<in> set (elems (astype_float32 img))
       \<and> (\<forall>v \<in> set (elems (astype_float32 img)).
             \<exists>z. scaled mn mx v = Fin z \<and> 0 \<le> z \<and> z < 256
                \<and> astype_uint8 x (scaled mn mx v) = word_of_int \<lfloor>z\<rfloor>
                \<and> (v = mn \<longrightarrow> astype_uint8 x (scaled mn mx v) = 0)
                \<and> (v = mx \<longrightarrow> astype_uint8 x (scaled mn mx v) = 254
                                \<or> astype_uint8 x (scaled mn mx v) = 255))
       \<and> (dtype_of img = Uint16 \<longrightarrow> astype_uint8 x (scaled mn mx mx) = 255)"
proof -
  let ?fs = "elems (astype_float32 img)"
  from samples_Fin [OF float32_samples [OF assms(1)]] obtain qs where
    fs: "?fs = map Fin qs" and qs: "\<forall>q \<in> set qs. on_grid q \<and> \<bar>q\<bar> \<le> 2 ^ 100" by blast
  from amin_Fin [OF assms(2) [unfolded fs]] have ne: "qs \<noteq> []" and mn: "mn = Fin (Min (set qs))"
    by simp_all
  from amax_Fin [OF assms(3) [unfolded fs]] have mx: "mx = Fin (Max (set qs))" by simp
  let ?lo = "Min (set qs)" and ?hi = "Max (set qs)"
  have lo_in: "?lo \<in> set qs" and hi_in: "?hi \<in> set qs" using ne by simp_all
  have lt: "?lo < ?hi" using assms(4) by (simp add: mn mx fgt_def)
  have glo: "on_grid ?lo" "\<bar>?lo\<bar> \<le> 2 ^ 100" using qs lo_in by blast+
  have ghi: "on_grid ?hi" "\<bar>?hi\<bar> \<le> 2 ^ 100" using qs hi_in by blast+
  have each: "\<exists>z. scaled mn mx v = Fin z \<and> 0 \<le> z \<and> z < 256
                \<and> astype_uint8 x (scaled mn mx v) = word_of_int \<lfloor>z\<rfloor>
                \<and> (v = mn \<longrightarrow> astype_uint8 x (scaled mn mx v) = 0)
                \<and> (v = mx \<longrightarrow> astype_uint8 x (scaled mn mx v) = 254
                                \<or> astype_uint8 x (scaled mn mx v) = 255)"
    if v: "v \<in> set ?fs" for v
  proof -
    from v fs obtain u where u: "v = Fin u" "u \<in> set qs" by auto
    have lo: "?lo \<le> u" and hi: "u \<le> ?hi" using u(2) by simp_all
    let ?z = "grid (grid (grid (u - ?lo) * 255) / grid (?hi - ?lo))"
    note S = scaled_value [OF glo(1) ghi(1) lo hi lt glo(2) ghi(2)]
    have e: "(2::rat) powi (- 16) \<le> 1/2" by (simp add: power_int_minus)
    have z256: "?z < 256" using S(3) e by linarith
    have cast: "astype_uint8 x (Fin ?z) = word_of_int \<lfloor>?z\<rfloor>"
      using S(2) z256 by (rule astype_uint8_floor)
    have atmn: "v = mn \<longrightarrow> astype_uint8 x (Fin ?z) = 0"
    proof
      assume "v = mn"
      then have "u = ?lo" by (simp add: u(1) mn)
      with S(4) have "?z = 0" by simp
      then show "astype_uint8 x (Fin ?z) = 0" unfolding cast by simp
    qed
    have atmx: "v = mx \<longrightarrow> astype_uint8 x (Fin ?z) = 254 \<or> astype_uint8 x (Fin ?z) = 255"
    proof
      assume "v = mx"
      then have "u = ?hi" by (simp add: u(1) mx)
      with S(5) have "255 - 2 powi (- 16) \<le> ?z" by simp
      from floor_254_255 [OF this S(3)] show
        "astype_uint8 x (Fin ?z) = 254 \<or> astype_uint8 x (Fin ?z) = 255"
        unfolding cast by auto
    qed
    have sc: "scaled mn mx v = Fin ?z" using S(1) by (simp add: mn mx u(1))
    show ?thesis
      unfolding sc using S(2) z256 cast atmn atmx by blast
  qed
  have mem: "mn \<in> set ?fs" "mx \<in> set ?fs" using lo_in hi_in by (simp_all add: fs mn mx)
  have u16: "dtype_of img = Uint16 \<longrightarrow> astype_uint8 x (scaled mn mx mx) = 255"
  proof
    assume "dtype_of img = Uint16"
    then obtain a where a: "img = U16 a" by (cases img) simp_all
    from mem obtain w1 w2 :: "16 word" where
      w: "mn = Fin (of_nat (unat w1))" "mx = Fin (of_nat (unat w2))"
      unfolding a float32_uint16 by auto
    have l: "unat w1 < unat w2"
      using assms(4) unfolding w by (simp only: fgt_def flt.simps of_nat_less_iff)
    have h: "unat w2 < 65536" using unsigned_less [of w2, where ?'a = nat] by simp
    from scaled_uint16 [OF _ _ l h, of "unat w2"] l obtain z where
      z: "scaled mn mx mx = Fin z" "0 \<le> z" "z < 256"
      "\<lfloor>z\<rfloor> = int (((unat w2 - unat w1) * 255) div (unat w2 - unat w1))"
      unfolding w by auto
    have "\<lfloor>z\<rfloor> = 255" using z(4) l by simp
    then show "astype_uint8 x (scaled mn mx mx) = 255"
      unfolding z(1) astype_uint8_floor [OF z(2,3)] by simp
  qed
  from normalize_unfold [OF assms(2,3,4), of x] each mem u16 show ?thesis by blast
qed

theorem normalize_scales_into_range_witness:
  "\<forall>x. fgt (Fin (5731123/65536)) (Fin (- (4377805/524288)))
       \<and> astype_uint8 x (scaled (Fin (- (4377805/524288))) (Fin (5731123/65536))
                            (Fin (- (4377805/524288)))) = 0
       \<and> (astype_uint8 x (scaled (Fin (- (4377805/524288))) (Fin (5731123/65536))
                            (Fin (5731123/65536))) = 254
          \<or> astype_uint8 x (scaled (Fin (- (4377805/524288))) (Fin (5731123/65536))
                            (Fin (5731123/65536))) = 255)"
proof
  fix x
  let ?F = "Flt (Nd [2] [Fin (- (835/100)), Fin (8745/100)])"
  let ?L = "Fin (- (4377805/524288))" and ?H = "Fin (5731123/65536)"
  have h1: "\<forall>v \<in> set (elems (values_of ?F)). bounded_sample v"
    by (simp add: values_of_def)
  have fs: "elems (astype_float32 ?F) = [?L, ?H]"
    by (simp add: astype_float32_def values_of_def map_nd_def r32_low r32_high)
  have h2: "amin (elems (astype_float32 ?F)) = Inr ?L"
    unfolding fs by (simp add: amin_def fmin2_def)
  have h3: "amax (elems (astype_float32 ?F)) = Inr ?H"
    unfolding fs by (simp add: amax_def fmax2_def)
  have h4: "fgt ?H ?L" by (simp add: fgt_def)
  from normalize_scales_into_range [OF h1 h2 h3 h4, of x]
  have "\<forall>v \<in> set [?L, ?H].
             \<exists>z. scaled ?L ?H v = Fin z \<and> 0 \<le> z \<and> z < 256
                \<and> astype_uint8 x (scaled ?L ?H v) = word_of_int \<lfloor>z\<rfloor>
                \<and> (v = ?L \<longrightarrow> astype_uint8 x (scaled ?L ?H v) = 0)
                \<and> (v = ?H \<longrightarrow> astype_uint8 x (scaled ?L ?H v) = 254
                                \<or> astype_uint8 x (scaled ?L ?H v) = 255)"
    unfolding fs by blast
  then have "astype_uint8 x (scaled ?L ?H ?L) = 0"
    and "astype_uint8 x (scaled ?L ?H ?H) = 254 \<or> astype_uint8 x (scaled ?L ?H ?H) = 255"
    by auto
  with h4 show "fgt ?H ?L \<and> astype_uint8 x (scaled ?L ?H ?L) = 0
       \<and> (astype_uint8 x (scaled ?L ?H ?H) = 254 \<or> astype_uint8 x (scaled ?L ?H ?H) = 255)"
    by blast
qed

theorem max_maps_to_254:
  "\<forall>x. normalize x (Flt (Nd [1, 2] [Fin (- (835/100)), Fin (8745/100)])) = Inr (Nd [1, 2] [0, 254])"
  by (simp add: normalize_def astype_float32_def values_of_def map_nd_def amin_def amax_def
      fmin2_def fmax2_def fgt_def r32_low r32_high r32_span r32_span_255 r32_quotient round32_zero astype_uint8_def floor_rat_numeral)

lemma amin_Fin_eq: "qs \<noteq> [] \<Longrightarrow> amin (map Fin qs) = Inr (Fin (Min (set qs)))"
proof -
  assume "qs \<noteq> []"
  then obtain a r where c: "qs = a # r" by (cases qs) auto
  show ?thesis unfolding c using Min.set_eq_fold [of a r] by (simp add: amin_def fold_fmin2_Fin)
qed

lemma amax_Fin_eq: "qs \<noteq> [] \<Longrightarrow> amax (map Fin qs) = Inr (Fin (Max (set qs)))"
proof -
  assume "qs \<noteq> []"
  then obtain a r where c: "qs = a # r" by (cases qs) auto
  show ?thesis unfolding c using Max.set_eq_fold [of a r] by (simp add: amax_def fold_fmax2_Fin)
qed

text \<open>
  An unsigned 16-bit frame is normalised exactly: every float32 operation on it is
  exact up to the division, whose integer part is the integer quotient.
\<close>

theorem normalize_uint16_exact:
  assumes "ws \<noteq> []" and "lo = Min (unat ` set ws)" and "hi = Max (unat ` set ws)" and "lo < hi"
  shows "normalize x (U16 (Nd sh ws))
           = Inr (Nd sh (map (\<lambda>w. of_nat (((unat w - lo) * 255) div (hi - lo))) ws))"
proof -
  let ?img = "U16 (Nd sh ws)"
  let ?qs = "map (\<lambda>w. (of_nat (unat w) :: rat)) ws"
  have fs: "elems (astype_float32 ?img) = map Fin ?qs"
    by (simp add: float32_uint16 comp_def)
  have ne: "?qs \<noteq> []" using assms(1) by simp
  have fin: "finite (unat ` set ws)" "unat ` set ws \<noteq> {}" using assms(1) by simp_all
  have m: "mono (of_nat :: nat \<Rightarrow> rat)" by (rule monoI) simp
  have smin: "Min (set ?qs) = of_nat lo"
    using mono_Min_commute [OF m fin] by (simp add: assms(2) image_image)
  have smax: "Max (set ?qs) = of_nat hi"
    using mono_Max_commute [OF m fin] by (simp add: assms(3) image_image)
  have mn: "amin (elems (astype_float32 ?img)) = Inr (Fin (of_nat lo))"
    unfolding fs using amin_Fin_eq [OF ne] by (simp only: smin)
  have mx: "amax (elems (astype_float32 ?img)) = Inr (Fin (of_nat hi))"
    unfolding fs using amax_Fin_eq [OF ne] by (simp only: smax)
  have gt: "fgt (Fin (of_nat hi)) (Fin (of_nat lo))" using assms(4) by (simp add: fgt_def)
  have px: "astype_uint8 x (scaled (Fin (of_nat lo)) (Fin (of_nat hi)) (Fin (of_nat (unat w))))
      = of_nat (((unat w - lo) * 255) div (hi - lo))" if w: "w \<in> set ws" for w
  proof -
    have l: "lo \<le> unat w" using w fin unfolding assms(2) by (intro Min_le) simp_all
    have h: "unat w \<le> hi" using w fin unfolding assms(3) by (intro Max_ge) simp_all
    have "hi \<in> unat ` set ws" unfolding assms(3) using fin by (intro Max_in)
    then obtain w2 where "hi = unat w2" and "w2 \<in> set ws" by (rule imageE)
    then have h2: "hi < 65536" using unsigned_less [of w2, where ?'a = nat] by simp
    from scaled_uint16 [OF l h assms(4) h2] obtain z where
      z: "scaled (Fin (of_nat lo)) (Fin (of_nat hi)) (Fin (of_nat (unat w))) = Fin z"
      "0 \<le> z" "z < 256" "\<lfloor>z\<rfloor> = int (((unat w - lo) * 255) div (hi - lo))" by blast
    show ?thesis unfolding z(1) astype_uint8_floor [OF z(2,3)] z(4) by simp
  qed
  have "map (\<lambda>v. astype_uint8 x (scaled (Fin (of_nat lo)) (Fin (of_nat hi)) v))
          (elems (astype_float32 ?img))
        = map (\<lambda>w. of_nat (((unat w - lo) * 255) div (hi - lo))) ws"
    unfolding float32_uint16 using px by (simp add: comp_def)
  with normalize_unfold [OF mn mx gt, of x] show ?thesis by simp
qed

text \<open>
  Claim C2.  For a frame whose maximum sample equals its minimum sample, the normalised
  image is all zeros and has the shape and the number of samples of the frame.
\<close>

theorem flat_frame_all_zero:
  assumes "amin (elems (values_of img)) = Inr mn" and "amax (elems (values_of img)) = Inr mx"
    and "feq mx mn"
  shows "normalize x img = Inr (Nd (shape_of img) (replicate (size_of img) 0))"
  using assms by (rule normalize_flat)

theorem flat_frame_all_zero_witness:
  "\<forall>x. feq (Fin 7) (Fin 7)
       \<and> normalize x (U16 (Nd [2, 2] [7, 7, 7, 7])) = Inr (Nd [2, 2] [0, 0, 0, 0])"
proof
  fix x
  have a: "amin (elems (values_of (U16 (Nd [2, 2] [7, 7, 7, 7])))) = Inr (Fin 7)"
    by (simp add: values_of_def map_nd_def amin_def fmin2_def)
  have b: "amax (elems (values_of (U16 (Nd [2, 2] [7, 7, 7, 7])))) = Inr (Fin 7)"
    by (simp add: values_of_def map_nd_def amax_def fmax2_def)
  have c: "feq (Fin 7) (Fin 7)" by simp
  have r: "replicate (size_of (U16 (Nd [2, 2] [7, 7, 7, 7]))) (0 :: 8 word) = [0, 0, 0, 0]"
    by simp
  from flat_frame_all_zero [OF a b c, of x]
  have "normalize x (U16 (Nd [2, 2] [7, 7, 7, 7])) = Inr (Nd [2, 2] [0, 0, 0, 0])"
    unfolding r by simp
  with c show "feq (Fin 7) (Fin 7)
       \<and> normalize x (U16 (Nd [2, 2] [7, 7, 7, 7])) = Inr (Nd [2, 2] [0, 0, 0, 0])" by blast
qed

subsection \<open>Facts about the sink\<close>



lemma record_step_none: "fd_data w = None \<Longrightarrow> record_step w d = (Continue, w)"
  by (simp add: record_step_def)

lemma display_step_cases:
  "display_step x w d h = (Raise ValueError, log_step x w d h) \<and>
     normalize x (data_to_frame x d (fpa_shape x)) = Inl ValueError
   \<or> (\<exists>img8u. normalize x (data_to_frame x d (fpa_shape x)) = Inr img8u \<and>
        display_step x w d h =
          (Continue, display_thermal_image x (cv_filter x img8u) (log_step x w d h)))"
  by (auto simp: display_step_def normalize_def Let_def amin_def amax_def
      split: sum.splits list.splits)

subsection \<open>Concrete runs\<close>

lemma normalize_flat_quad:
  "normalize x (U16 (Nd [2, 2] [7, 7, 7, 7])) = Inr (Nd [2, 2] [0, 0, 0, 0])"
proof -
  have a: "amin (elems (values_of (U16 (Nd [2, 2] [7, 7, 7, 7])))) = Inr (Fin 7)"
    by (simp add: values_of_def map_nd_def amin_def fmin2_def)
  have b: "amax (elems (values_of (U16 (Nd [2, 2] [7, 7, 7, 7])))) = Inr (Fin 7)"
    by (simp add: values_of_def map_nd_def amax_def fmax2_def)
  have c: "feq (Fin 7) (Fin 7)" by simp
  have r: "replicate (size_of (U16 (Nd [2, 2] [7, 7, 7, 7]))) (0 :: 8 word) = [0, 0, 0, 0]"
    by simp
  from normalize_flat [OF a b c, of x] show ?thesis unfolding r by simp
qed

lemma frame_text_flat_quad: "frame_text flat_quad = ''7 7 7 7 '' @ [CHR 0x0A]"
  by (simp add: frame_text_def flat_quad_def format_n_def decimal.simps [of 7] digit_char_def)

lemma record_flat_quad:
  "record_step recording_world flat_quad =
      (Continue, recording_world\<lparr>fd_data := Some \<lparr>disk = ''7 7 7 7 '' @ [CHR 0x0A], pending = [],
         closed = False\<rparr>\<rparr>)"
  by (simp add: record_step_def recording_world_def write_frame_def fwrite_def fflush_def
        open_w_def frame_text_flat_quad)

lemma display_flat_quad:
  "display_step plain_ext w flat_quad hdr =
     (Continue, display_thermal_image plain_ext (Nd [2, 2] [0, 0, 0, 0])
                  (log_step plain_ext w flat_quad hdr))"
proof -
  have d: "data_to_frame plain_ext flat_quad (fpa_shape plain_ext) = U16 (Nd [2, 2] [7, 7, 7, 7])"
    by (simp add: plain_ext_def reshape_def flat_quad_def)
  have f: "cv_filter plain_ext i = i" for i by (simp add: plain_ext_def)
  show ?thesis
    unfolding display_step_def Let_def d normalize_flat_quad by (simp add: f)
qed

lemma process_flat_quad:
  "process_frame plain_ext recording_world flat_quad hdr =
     (Continue, display_thermal_image plain_ext (Nd [2, 2] [0, 0, 0, 0])
        (log_step plain_ext
           (recording_world\<lparr>fd_data := Some \<lparr>disk = ''7 7 7 7 '' @ [CHR 0x0A], pending = [],
              closed = False\<rparr>\<rparr>) flat_quad hdr))"
  unfolding process_frame_def record_flat_quad by (simp add: display_flat_quad)

lemma quit_flat_quad:
  "iteration plain_ext recording_world (Read (Some flat_quad) hdr 113) =
     (Break, display_thermal_image plain_ext (Nd [2, 2] [0, 0, 0, 0])
        (log_step plain_ext
           (recording_world\<lparr>fd_data := Some \<lparr>disk = ''7 7 7 7 '' @ [CHR 0x0A], pending = [],
              closed = False\<rparr>\<rparr>) flat_quad hdr))"
  by (simp add: iteration_def process_flat_quad)

lemma fd_data_display [simp]: "fd_data (display_thermal_image x i w) = fd_data w"
  by (simp add: display_thermal_image_def Let_def)

lemma fd_data_log [simp]: "fd_data (log_step x w d h) = fd_data w"
  by (cases h) (simp_all add: log_step_def)

text \<open>
  Claim C9.  Two iterations on the same frame data that differ only in their (non-None)
  header take the same way out and leave the same devices, the messages handed to
  \<open>logger.debug\<close> apart: the recording sink, the window and the images shown
  (each made from the normalised 8-bit image) are identical.
\<close>

theorem header_only_reaches_log:
  "fst (iteration x w (Read (Some d) (Some h1) k)) = fst (iteration x w (Read (Some d) (Some h2) k))
   \<and> (snd (iteration x w (Read (Some d) (Some h1) k)))\<lparr>debug_log := []\<rparr>
     = (snd (iteration x w (Read (Some d) (Some h2) k)))\<lparr>debug_log := []\<rparr>"
  by (auto simp: iteration_def process_frame_def record_step_def display_step_def log_step_def
      display_thermal_image_def Let_def split: option.splits sum.splits prod.splits flow.splits)


subsection \<open>Empty reads\<close>

lemma run_loop_append:
  "run_loop x w (evs @ evs') =
     (case run_loop x w evs of (Continue, w') \<Rightarrow> run_loop x w' evs' | r \<Rightarrow> r)"
  by (induction evs arbitrary: w) (auto split: prod.splits flow.splits)

lemma run_loop_empty_reads:
  "run_loop x w (map (\<lambda>(h, k). Read None h k) hks @ evs) = run_loop x w evs"
  by (induction hks) (auto simp: iteration_def)

text \<open>
  Claim C6.  An iteration whose read returns no frame continues with the devices
  unchanged: no error, nothing written to the sink, nothing shown.  Any number of such
  iterations in a row leaves the loop where it was, so what follows them runs as if
  they had not happened.
\<close>

theorem empty_read_skips_iteration:
  "iteration x w (Read None h k) = (Continue, w)
   \<and> run_loop x w (map (\<lambda>(h, k). Read None h k) hks @ evs) = run_loop x w evs"
  by (simp add: run_loop_empty_reads) (simp add: iteration_def)

subsection \<open>Quitting\<close>

lemma signal_handler_flow:
  "fst (signal_handler x w) \<noteq> Break \<and> fst (signal_handler x w) \<noteq> Continue"
  by (simp add: signal_handler_def mi48_stop_def Let_def)

lemma record_step_flow: "record_step w d = (fl, w') \<Longrightarrow> fl \<noteq> Break"
  by (auto simp: record_step_def split: option.splits sum.splits)

lemma display_step_flow: "display_step x w d h = (fl, w') \<Longrightarrow> fl \<noteq> Break"
  by (auto simp: display_step_def Let_def split: sum.splits)

lemma process_frame_flow: "process_frame x w d h = (fl, w') \<Longrightarrow> fl \<noteq> Break"
  by (auto simp: process_frame_def split: prod.splits flow.splits
      dest: record_step_flow display_step_flow)

lemma iteration_Break:
  assumes "iteration x w ev = (Break, w')"
  shows "\<exists>d h. ev = Read (Some d) h 113 \<and> process_frame x w d h = (Continue, w')"
proof (cases ev)
  case (Read dopt h k)
  show ?thesis
  proof (cases dopt)
    case None
    with Read assms show ?thesis by (simp add: iteration_def)
  next
    case (Some d)
    obtain fl w2 where pf: "process_frame x w d h = (fl, w2)" by (cases "process_frame x w d h")
    have nb: "fl \<noteq> Break" using pf by (rule process_frame_flow)
    from assms Read Some pf nb have "fl = Continue \<and> k = 113 \<and> w2 = w'"
      by (cases fl) (auto simp: iteration_def split: if_splits)
    with Read Some pf show ?thesis by simp
  qed
next
  case Fault
  with assms show ?thesis by (simp add: iteration_def)
next
  case (Interrupt p dopt h)
  have "fst (iteration x w ev) \<noteq> Break"
    using Interrupt
    by (cases p; cases dopt)
       (auto simp: iteration_def signal_handler_flow split: prod.splits flow.splits
         dest: record_step_flow process_frame_flow)
  with assms show ?thesis by simp
qed

lemma process_frame_Continue:
  assumes "process_frame x w d h = (Continue, w')"
  shows "\<exists>w1 img8u. record_step w d = (Continue, w1)
           \<and> normalize x (data_to_frame x d (fpa_shape x)) = Inr img8u
           \<and> w' = display_thermal_image x (cv_filter x img8u) (log_step x w1 d h)"
proof -
  obtain fl w1 where rs: "record_step w d = (fl, w1)" by (cases "record_step w d")
  with assms have c: "fl = Continue" and ds: "display_step x w1 d h = (Continue, w')"
    by (cases fl; simp add: process_frame_def)+
  from ds obtain img8u where "normalize x (data_to_frame x d (fpa_shape x)) = Inr img8u"
    and "w' = display_thermal_image x (cv_filter x img8u) (log_step x w1 d h)"
    by (auto simp: display_step_def Let_def split: sum.splits)
  with rs c show ?thesis by blast
qed

text \<open>
  Claim C10.  The quit key is tested after the frame of the same iteration has been
  recorded and displayed: when an iteration leaves the loop by \<open>break\<close>, it read
  a frame, \<open>waitKey\<close> returned \<open>ord('q') = 113\<close>, the normalised image of that
  frame is the last one shown and is in the window, and with recording on the text of
  that frame has reached the file and the buffer is empty.
\<close>

theorem quit_after_record_and_display:
  assumes "iteration x w ev = (Break, w')"
  shows "\<exists>d h img8u.
           ev = Read (Some d) h 113
         \<and> normalize x (data_to_frame x d (fpa_shape x)) = Inr img8u
         \<and> shown w' = shown w @ [cv_resize x (applyColorMap x (cv_filter x img8u)) (640, 496)]
         \<and> window w' = Some (cv_resize x (applyColorMap x (cv_filter x img8u)) (640, 496))
         \<and> (case fd_data w of
              None \<Rightarrow> fd_data w' = None
            | Some f \<Rightarrow>
                fd_data w' = Some (f\<lparr>disk := disk f @ pending f @ frame_text d, pending := []\<rparr>))"
proof -
  from iteration_Break [OF assms] obtain d h where
    ev: "ev = Read (Some d) h 113" and pf: "process_frame x w d h = (Continue, w')" by blast
  from process_frame_Continue [OF pf] obtain w1 img8u where
    rs: "record_step w d = (Continue, w1)" and
    n: "normalize x (data_to_frame x d (fpa_shape x)) = Inr img8u" and
    w': "w' = display_thermal_image x (cv_filter x img8u) (log_step x w1 d h)" by blast
  have sh: "shown w1 = shown w" and fd: "(case fd_data w of
              None \<Rightarrow> fd_data w1 = None
            | Some f \<Rightarrow>
                fd_data w1 = Some (f\<lparr>disk := disk f @ pending f @ frame_text d, pending := []\<rparr>))"
    using rs
    by (auto simp: record_step_def write_frame_def fwrite_def fflush_def
        split: option.splits sum.splits if_splits)
  have "shown w' = shown w @ [cv_resize x (applyColorMap x (cv_filter x img8u)) (640, 496)]"
    using sh by (simp add: w' display_thermal_image_def log_step_def Let_def split: option.splits)
  moreover have "window w' = Some (cv_resize x (applyColorMap x (cv_filter x img8u)) (640, 496))"
    by (simp add: w' display_thermal_image_def Let_def)
  moreover have "fd_data w' = fd_data w1"
    by (simp add: w' display_thermal_image_def log_step_def Let_def split: option.splits)
  ultimately show ?thesis using ev n fd by (auto split: option.splits)
qed

theorem quit_after_record_and_display_witness:
  "fst (iteration plain_ext recording_world (Read (Some flat_quad) None 113)) = Break
   \<and> shown (snd (iteration plain_ext recording_world (Read (Some flat_quad) None 113)))
       = [Nd [2, 2] [0, 0, 0, 0]]
   \<and> fd_data (snd (iteration plain_ext recording_world (Read (Some flat_quad) None 113)))
       = Some \<lparr>disk = ''7 7 7 7 '' @ [CHR 0x0A], pending = [], closed = False\<rparr>"
proof -
  let ?ev = "Read (Some flat_quad) None 113"
  let ?r = "iteration plain_ext recording_world ?ev"
  have b: "fst ?r = Break" by (simp add: quit_flat_quad)
  then have h: "iteration plain_ext recording_world ?ev = (Break, snd ?r)"
    by (metis prod.collapse)
  from quit_after_record_and_display [OF h] obtain d hd img8u where
    ev: "?ev = Read (Some d) hd 113"
    and n: "normalize plain_ext (data_to_frame plain_ext d (fpa_shape plain_ext)) = Inr img8u"
    and s: "shown (snd ?r) = shown recording_world
              @ [cv_resize plain_ext (applyColorMap plain_ext (cv_filter plain_ext img8u)) (640, 496)]"
    and f: "(case fd_data recording_world of
              None \<Rightarrow> fd_data (snd ?r) = None
            | Some f \<Rightarrow> fd_data (snd ?r)
                = Some (f\<lparr>disk := disk f @ pending f @ frame_text d, pending := []\<rparr>))"
    by blast
  from ev have d: "d = flat_quad" by simp
  have "data_to_frame plain_ext flat_quad (fpa_shape plain_ext) = U16 (Nd [2, 2] [7, 7, 7, 7])"
    by (simp add: plain_ext_def reshape_def flat_quad_def)
  with n d have i: "img8u = Nd [2, 2] [0, 0, 0, 0]" by (simp add: normalize_flat_quad)
  have s': "shown (snd ?r) = [Nd [2, 2] [0, 0, 0, 0]]"
    using s unfolding i by (simp add: plain_ext_def recording_world_def boot_def)
  have f': "fd_data (snd ?r) = Some \<lparr>disk = ''7 7 7 7 '' @ [CHR 0x0A], pending = [], closed = False\<rparr>"
    using f unfolding d frame_text_flat_quad by (simp add: recording_world_def open_w_def)
  from b s' f' show ?thesis by blast
qed

subsection \<open>The command line\<close>

lemma dest_record_opts: "dest record_opts = ''record''"
  by (simp add: dest_def record_opts_def is_long_def)

lemma dest_framerate_opts: "dest framerate_opts = ''framerate''"
  by (simp add: dest_def framerate_opts_def is_long_def)

lemma map_of_filter_other:
  "k \<noteq> n \<Longrightarrow> map_of (filter (\<lambda>p. fst p \<noteq> n) ns) k = map_of ns k"
  by (induction ns) auto

lemma map_of_setattr:
  "map_of (setattr ns n v) k = (if k = n then Some v else map_of ns k)"
  by (simp add: setattr_def map_of_filter_other)

lemma args_ok_record: "args_ok ns \<Longrightarrow> args_ok (setattr ns ''record'' (VBool True))"
  by (auto simp: args_ok_def map_of_setattr)

lemma args_ok_framerate: "args_ok ns \<Longrightarrow> args_ok (setattr ns ''framerate'' (VFloat f))"
  by (auto simp: args_ok_def map_of_setattr)

lemma option_string_actions_known:
  "(s, a) \<in> set option_string_actions \<Longrightarrow> a \<in> set parser_actions"
  by (auto simp: option_string_actions_def)

lemma lookup_known: "map_of option_string_actions s = Some a \<Longrightarrow> a \<in> set parser_actions"
  by (rule option_string_actions_known) (rule map_of_SomeD)

lemma get_option_tuples_known: "t \<in> set (get_option_tuples s) \<Longrightarrow> known_tuple t"
  by (auto simp: get_option_tuples_def known_tuple_def split: prod.splits if_splits
      dest: option_string_actions_known)

lemma parse_optional_known: "parse_optional s = Inr (Some t) \<Longrightarrow> known_tuple t"
proof -
  assume p: "parse_optional s = Inr (Some t)"
  have g: "get_option_tuples s = [u] \<Longrightarrow> known_tuple u" for u
    using get_option_tuples_known [of u s] by simp
  from p show ?thesis
    by (auto simp: parse_optional_def known_tuple_def split: if_splits option.splits prod.splits
        list.splits dest: lookup_known g)
qed

lemma arg_strings_pattern_known:
  "arg_strings_pattern argv = Inr cs \<Longrightarrow> list_all known_class cs"
proof (induction argv arbitrary: cs)
  case Nil
  then show ?case by simp
next
  case (Cons a argv)
  show ?case
  proof (cases "a = ''--''")
    case True
    with Cons.prems have "cs = (a, DashDash) # map (\<lambda>s. (s, Arg)) argv" by simp
    then show ?thesis by (simp add: known_class_def list_all_iff)
  next
    case False
    with Cons.prems obtain t cs' where p: "parse_optional a = Inr t"
      and r: "arg_strings_pattern argv = Inr cs'"
      and c: "cs = (a, case t of None \<Rightarrow> Arg | Some tup \<Rightarrow> Opt tup) # cs'"
      by (auto split: sum.splits)
    have "known_class (a, case t of None \<Rightarrow> Arg | Some tup \<Rightarrow> Opt tup)"
      using p by (cases t) (simp_all add: known_class_def parse_optional_known)
    with Cons.IH [OF r] c show ?thesis by simp
  qed
qed

lemma match_argument_known:
  "match_argument a following = Inr (ts, extra, n) \<Longrightarrow> a \<in> set parser_actions \<Longrightarrow>
   known_actions ts"
  by (auto simp: match_argument_def known_actions_def split: if_splits list.splits prod.splits
      arg_class.splits)

lemma consume_explicit_known:
  "consume_explicit a option_string sep ex following = Inr (ts, extra, n) \<Longrightarrow>
   a \<in> set parser_actions \<Longrightarrow> known_actions ts"
proof (induction a option_string sep ex following arbitrary: ts extra n
    rule: consume_explicit.induct)
  case (1 a option_string sep following)
  then show ?case by (auto simp: known_actions_def split: if_splits)
next
  case (2 a option_string sep c explicit_arg following)
  show ?case
  proof (cases "nargs a = 0 \<and> option_string ! 1 \<noteq> CHR ''-''")
    case False
    with "2.prems" show ?thesis by (auto simp: known_actions_def split: if_splits)
  next
    case True
    with "2.prems"(1) have ns: "\<not> (sep \<or> c = CHR ''-'')" by (auto split: if_splits)
    show ?thesis
    proof (cases "map_of option_string_actions [hd option_string, c]")
      case None
      with True ns "2.prems" show ?thesis by (auto simp: known_actions_def)
    next
      case (Some a')
      have ka: "a' \<in> set parser_actions" using Some by (rule lookup_known)
      show ?thesis
      proof (cases explicit_arg)
        case Nil
        with True ns Some "2.prems"(1) obtain ts' where
          m: "match_argument a' following = Inr (ts', extra, n)" and t: "ts = (a, []) # ts'"
          by (auto split: sum.splits)
        from match_argument_known [OF m ka] t "2.prems"(2) show ?thesis
          by (simp add: known_actions_def)
      next
        case (Cons d explicit_arg')
        show ?thesis
        proof (cases "d = CHR ''=''")
          case eq: True
          with True ns Some Cons "2.prems"(1) obtain ts' where
            m: "consume_explicit a' [hd option_string, c] True explicit_arg' following
                  = Inr (ts', extra, n)" and t: "ts = (a, []) # ts'"
            by (auto split: sum.splits)
          from "2.IH"(1) [OF True ns Some Cons eq m ka] t "2.prems"(2) show ?thesis
            by (simp add: known_actions_def)
        next
          case ne: False
          with True ns Some Cons "2.prems"(1) obtain ts' where
            m: "consume_explicit a' [hd option_string, c] False explicit_arg following
                  = Inr (ts', extra, n)" and t: "ts = (a, []) # ts'"
            by (auto split: sum.splits)
          from "2.IH"(2) [OF True ns Some Cons ne m ka] t "2.prems"(2) show ?thesis
            by (simp add: known_actions_def)
        qed
      qed
    qed
  qed
qed

lemma consume_optional_known:
  "consume_optional t following = Inr (ts, extra, n) \<Longrightarrow> known_tuple t \<Longrightarrow> known_actions ts"
  by (auto simp: consume_optional_def known_tuple_def known_actions_def
      split: prod.splits option.splits
      dest: match_argument_known consume_explicit_known)

lemma take_action_ok:
  "take_action x ns t = Inr ns' \<Longrightarrow> fst t \<in> set parser_actions \<Longrightarrow> args_ok ns \<Longrightarrow> args_ok ns'"
  by (auto simp: take_action_def parser_actions_def dest_record_opts dest_framerate_opts
      split: prod.splits action_kind.splits option.splits
      intro: args_ok_record args_ok_framerate)

lemma take_actions_ok:
  "take_actions x ns ts = Inr ns' \<Longrightarrow> known_actions ts \<Longrightarrow> args_ok ns \<Longrightarrow> args_ok ns'"
proof (induction ts arbitrary: ns)
  case Nil
  then show ?case by simp
next
  case (Cons t ts)
  from Cons.prems(1) obtain ns1 where t: "take_action x ns t = Inr ns1"
    and r: "take_actions x ns1 ts = Inr ns'" by (auto split: sum.splits)
  from Cons.prems(2) have k: "fst t \<in> set parser_actions" and ks: "known_actions ts"
    by (simp_all add: known_actions_def)
  from Cons.IH [OF r ks take_action_ok [OF t k Cons.prems(3)]] show ?case .
qed

lemma parse_known_ok:
  "parse_known x ns extras cs = Inr ns' \<Longrightarrow> list_all known_class cs \<Longrightarrow> args_ok ns \<Longrightarrow>
   args_ok ns'"
proof (induction x ns extras cs rule: parse_known.induct)
  case (1 x ns extras)
  then show ?case by (simp split: if_splits)
next
  case (2 x ns extras s rest)
  then show ?case by simp
next
  case (3 x ns extras s rest)
  then show ?case by simp
next
  case (4 x ns extras s t rest)
  from "4.prems"(1) obtain ts extra n ns1 where
    c: "consume_optional t rest = Inr (ts, extra, n)"
    and a: "take_actions x ns ts = Inr ns1"
    and r: "parse_known x ns1 (extras \<or> extra) (drop n rest) = Inr ns'"
    by (auto split: sum.splits prod.splits)
  from "4.prems"(2) have kc: "known_class (s, Opt t)" and kr: "list_all known_class rest"
    by simp_all
  from kc have kt: "known_tuple t" by (simp add: known_class_def)
  have kd: "list_all known_class (drop n rest)"
    using kr by (auto simp: list_all_iff dest: in_set_dropD)
  have ok: "args_ok ns1"
    using take_actions_ok [OF a consume_optional_known [OF c kt] "4.prems"(3)] .
  from "4.IH" [OF c refl refl a r kd ok] show ?case .
qed

lemma parse_args_ok: "parse_args x argv = Inr ns \<Longrightarrow> args_ok ns"
proof -
  assume p: "parse_args x argv = Inr ns"
  then obtain cs where c: "arg_strings_pattern argv = Inr cs"
    and k: "parse_known x [(dest record_opts, VBool False), (dest framerate_opts, VInt DEFAULT_FPS)]
              False cs = Inr ns"
    by (auto simp: parse_args_def split: sum.splits)
  have "args_ok [(dest record_opts, VBool False), (dest framerate_opts, VInt DEFAULT_FPS)]"
    by (auto simp: args_ok_def dest_record_opts dest_framerate_opts)
  from parse_known_ok [OF k arg_strings_pattern_known [OF c] this] show ?thesis .
qed

lemma fps_attribute_missing:
  "parse_args x argv = Inr ns \<Longrightarrow>
     getattr ns ''fps'' = Inl (AttributeError ''fps'') \<and> (\<exists>v. getattr ns ''framerate'' = Inr v)
     \<and> startup x argv = Inl (AttributeError ''fps'')"
proof -
  assume p: "parse_args x argv = Inr ns"
  have k: "args_ok ns" using p by (rule parse_args_ok)
  have a: "getattr ns ''fps'' = Inl (AttributeError ''fps'')"
    using k by (simp add: getattr_def args_ok_def)
  have b: "\<exists>v. getattr ns ''framerate'' = Inr v"
    using k by (auto simp: getattr_def args_ok_def)
  show ?thesis using a b p by (simp add: startup_def)
qed

text \<open>
  Claim C3.  The claim is that the value parsed from \<open>--framerate\<close> is the value
  given to \<open>set_fps\<close>.  The code stores that value under \<open>framerate\<close> and reads
  \<open>args.fps\<close>: for every command line the start-up ends in an exception
  (\<open>AttributeError\<close> whenever argparse accepts the command line) with the devices
  untouched, so no value reaches \<open>set_fps\<close> and the loop never starts.
\<close>

theorem set_fps_never_reached: "\<exists>e. startup x argv = Inl e \<and> main x argv evs = (Raise e, boot)"
proof (cases "parse_args x argv")
  case (Inl e)
  then show ?thesis by (simp add: startup_def main_def)
next
  case (Inr ns)
  from fps_attribute_missing [OF Inr] show ?thesis by (simp add: main_def)
qed

lemma lookup_record: "map_of option_string_actions ''--record'' = Some (record_opts, StoreTrue)"
  by (simp add: option_string_actions_def parser_actions_def help_opts_def record_opts_def
      framerate_opts_def)

lemma parse_args_record_flag:
  "parse_args x [''--record''] = Inr [(''record'', VBool True), (''framerate'', VInt 7)]"
  by (simp add: parse_args_def parse_optional_def lookup_record consume_optional_def
      match_argument_def nargs_def take_action_def dest_record_opts dest_framerate_opts
      setattr_def DEFAULT_FPS_def)

lemma parse_args_empty:
  "parse_args x [] = Inr [(''record'', VBool False), (''framerate'', VInt 7)]"
  by (simp add: parse_args_def dest_record_opts dest_framerate_opts DEFAULT_FPS_def)

lemma no_arguments_crash: "main x [] evs = (Raise (AttributeError ''fps''), boot)"
  by (simp add: main_def startup_def parse_args_empty getattr_def)

subsection \<open>What the loop leaves alone\<close>

lemma mi48_stop_frame:
  "opened (snd (mi48_stop x p s w)) = opened w \<and> fd_data (snd (mi48_stop x p s w)) = fd_data w"
  by (simp add: mi48_stop_def Let_def)

lemma signal_handler_frame:
  "opened (snd (signal_handler x w)) = opened w
   \<and> fd_data (snd (signal_handler x w)) = fd_data w"
  by (simp add: signal_handler_def destroyAllWindows_def mi48_stop_def Let_def)

lemma record_step_frame:
  "opened (snd (record_step w d)) = opened w
   \<and> (fd_data (snd (record_step w d)) = None) = (fd_data w = None)"
  by (auto simp: record_step_def split: option.splits sum.splits)

lemma display_step_frame:
  "opened (snd (display_step x w d h)) = opened w
   \<and> fd_data (snd (display_step x w d h)) = fd_data w"
  by (auto simp: display_step_def log_step_def display_thermal_image_def Let_def
      split: option.splits sum.splits)

lemma process_frame_frame:
  "opened (snd (process_frame x w d h)) = opened w
   \<and> (fd_data (snd (process_frame x w d h)) = None) = (fd_data w = None)"
proof -
  obtain fl w1 where rs: "record_step w d = (fl, w1)" by (cases "record_step w d")
  from record_step_frame [of w d] rs have 1: "opened w1 = opened w"
    and 2: "(fd_data w1 = None) = (fd_data w = None)" by simp_all
  show ?thesis
    using 1 2 rs display_step_frame [of x w1 d h]
    by (cases fl) (simp_all add: process_frame_def)
qed

lemma iteration_frame:
  "opened (snd (iteration x w ev)) = opened w
   \<and> (fd_data (snd (iteration x w ev)) = None) = (fd_data w = None)"
proof (cases ev)
  case (Read dopt h k)
  show ?thesis
  proof (cases dopt)
    case None
    with Read show ?thesis by (simp add: iteration_def)
  next
    case (Some d)
    obtain fl w2 where pf: "process_frame x w d h = (fl, w2)" by (cases "process_frame x w d h")
    with process_frame_frame [of x w d h] Read Some show ?thesis
      by (cases fl) (simp_all add: iteration_def)
  qed
next
  case Fault
  then show ?thesis by (simp add: iteration_def)
next
  case (Interrupt p dopt h)
  show ?thesis
  proof (cases dopt)
    case None
    with Interrupt signal_handler_frame [of x w] show ?thesis
      by (cases p) (simp_all add: iteration_def)
  next
    case (Some d)
    obtain fl w1 where rs: "record_step w d = (fl, w1)" by (cases "record_step w d")
    obtain fl2 w2 where pf: "process_frame x w d h = (fl2, w2)"
      by (cases "process_frame x w d h")
    show ?thesis
      using Interrupt Some rs pf record_step_frame [of w d] process_frame_frame [of x w d h]
        signal_handler_frame [of x w] signal_handler_frame [of x w1]
        signal_handler_frame [of x w2]
      by (cases p; cases fl; cases fl2) (simp_all add: iteration_def)
  qed
qed

lemma run_loop_frame:
  "opened (snd (run_loop x w evs)) = opened w
   \<and> (fd_data (snd (run_loop x w evs)) = None) = (fd_data w = None)"
proof (induction evs arbitrary: w)
  case Nil
  show ?case by simp
next
  case (Cons ev evs)
  obtain fl w1 where it: "iteration x w ev = (fl, w1)" by (cases "iteration x w ev")
  with iteration_frame [of x w ev] Cons [of w1] show ?case
    by (cases fl) simp_all
qed

lemma close_sink_frame:
  "opened (close_sink w) = opened w \<and> (fd_data (close_sink w) = None) = (fd_data w = None)"
  by (simp add: close_sink_def split: option.splits)

lemma cleanup_frame:
  "opened (snd (cleanup x w)) = opened w
   \<and> (fd_data (snd (cleanup x w)) = None) = (fd_data w = None)"
proof -
  obtain fl w1 where st: "mi48_stop x None (1/2) w = (fl, w1)"
    by (cases "mi48_stop x None (1/2) w")
  from mi48_stop_frame [of x None "1/2" w] st have 1: "opened w1 = opened w"
    and 2: "fd_data w1 = fd_data w" by simp_all
  have 3: "opened (destroyAllWindows (close_sink w1)) = opened w"
    "(fd_data (destroyAllWindows (close_sink w1)) = None) = (fd_data w = None)"
    using 1 2 close_sink_frame [of w1] by (simp_all add: destroyAllWindows_def)
  show ?thesis
    using st 1 2 3 close_sink_frame [of w1] signal_handler_frame [of x w]
      signal_handler_frame [of x w1] signal_handler_frame [of x "close_sink w1"]
      signal_handler_frame [of x "destroyAllWindows (close_sink w1)"]
    by (cases fl) (simp_all add: cleanup_def Let_def)
qed

lemma snd_finally: "snd (case c of (Continue, w2) \<Rightarrow> (fl, w2) | r \<Rightarrow> r) = snd c"
  by (cases c; cases "fst c") auto

lemma try_loop_left:
  "run_loop x w evs = (fl, w1) \<Longrightarrow> fl \<noteq> Continue \<Longrightarrow>
   try_loop x w evs = (case cleanup x w1 of (Continue, w2) \<Rightarrow> (fl, w2) | r \<Rightarrow> r)"
  by (cases fl) (auto simp: try_loop_def split: prod.splits flow.splits)

lemma try_loop_frame:
  "opened (snd (try_loop x w evs)) = opened w
   \<and> (fd_data (snd (try_loop x w evs)) = None) = (fd_data w = None)"
proof -
  obtain fl w1 where rl: "run_loop x w evs = (fl, w1)" by (cases "run_loop x w evs")
  show ?thesis
  proof (cases "fl = Continue")
    case True
    with rl run_loop_frame [of x w evs] show ?thesis by (simp add: try_loop_def)
  next
    case False
    from try_loop_left [OF rl False] have "snd (try_loop x w evs) = snd (cleanup x w1)"
      by (simp add: snd_finally)
    with rl run_loop_frame [of x w evs] cleanup_frame [of x w1] show ?thesis by simp
  qed
qed

text \<open>
  Claim C8.  The claim is that a sink is opened exactly once, before the loop, when
  \<open>--record\<close> is given, and never otherwise.  Nothing in the loop or in the
  \<open>finally\<close> block calls \<open>open\<close>, whatever the state they start from.  But the
  start-up never reaches line 170: argparse accepts \<open>--record\<close> and sets
  \<open>args.record\<close>, and line 157 then raises \<open>AttributeError\<close> on \<open>args.fps\<close>
  (the defect of claim C3).  So with \<open>--record\<close>, as with every other command line,
  the program ends with the devices untouched: no sink is ever opened.
\<close>

theorem record_flag_opens_no_sink:
  "parse_args x [''--record''] = Inr [(''record'', VBool True), (''framerate'', VInt 7)]
   \<and> main x [''--record''] evs = (Raise (AttributeError ''fps''), boot)
   \<and> opened (snd (main x argv evs)) = [] \<and> fd_data (snd (main x argv evs)) = None
   \<and> opened (snd (try_loop x w evs)) = opened w"
proof -
  have a: "main x [''--record''] evs = (Raise (AttributeError ''fps''), boot)"
    by (simp add: main_def startup_def parse_args_record_flag getattr_def)
  have "\<exists>e. main x argv evs = (Raise e, boot)"
  proof (cases "parse_args x argv")
    case (Inl e)
    then show ?thesis by (simp add: startup_def main_def)
  next
    case (Inr ns)
    from fps_attribute_missing [OF Inr] show ?thesis by (simp add: main_def)
  qed
  then have b: "opened (snd (main x argv evs)) = []" and c: "fd_data (snd (main x argv evs)) = None"
    by (auto simp: boot_def)
  from a b c parse_args_record_flag [of x] try_loop_frame [of x w evs] show ?thesis by blast
qed

subsection \<open>Leaving the loop\<close>



lemma fclose_flushes: "\<not> closed f \<Longrightarrow> disk (fclose f) = disk f @ pending f \<and> pending (fclose f) = []"
  by (simp add: fclose_def)
















subsection \<open>The sink across iterations\<close>






subsection \<open>Runs on frames that are not empty\<close>













end
